theory Spec2Isabelle
  imports Complex_Main "HOL-Library.AList"
begin

section \<open>Values crossing the boundary\<close>

text \<open>
  The server receives values whose type TypeScript does not enforce at run time: the
  fields of a message produced by \<^verbatim>\<open>JSON.parse\<close> and the \<^verbatim>\<open>unknown\<close> parameters of the
  validators. \<open>jsval\<close> carries the JavaScript values such a field can hold. \<open>JUndefined\<close> is an
  absent field, \<open>JObj\<close> stands for any object or array. Numbers are the finite ones, as
  rationals (every finite double is one); the only other number \<^verbatim>\<open>JSON.parse\<close> can return,
  \<^verbatim>\<open>Infinity\<close> for an overflowing literal, is truthy and not an integer, so the code below
  treats it exactly as it treats \<open>JNum (1/2)\<close>.

  A string is its sequence of code units. The model carries the code units below 256
  (Latin-1), one \<open>char\<close> each, so \<open>length\<close> is the \<^verbatim>\<open>.length\<close> of the source.
\<close>

datatype jsval = JUndefined | JNull | JBool bool | JNum rat | JStr string | JObj

fun truthy :: "jsval \<Rightarrow> bool" where
  "truthy JUndefined = False"
| "truthy JNull = False"
| "truthy (JBool b) = b"
| "truthy (JNum r) = (r \<noteq> 0)"
| "truthy (JStr s) = (s \<noteq> [])"
| "truthy JObj = True"

datatype error =
    UsernameNotString | UsernameEmpty | UsernameTooLong | UsernamePattern | UsernameInvalid
  | InvalidColumns | InvalidRows
  | NullBytes | DirectoryTraversal | PathSeparators | InvalidPathComponent
  | InputNotString | InputTooLarge
  | SpawnFailed

section \<open>String primitives of the run time\<close>

text \<open>
  \<^verbatim>\<open>String.prototype.trim\<close> strips white space and line terminators from both ends; below
  code unit 256 these are TAB, LF, VT, FF, CR, SPACE and NBSP.
\<close>

definition isWhiteSpace :: "char \<Rightarrow> bool" where
  "isWhiteSpace c = (of_char c \<in> {9, 10, 11, 12, 13, 32, 160 :: nat})"

definition trim :: "string \<Rightarrow> string" where
  "trim s = rev (dropWhile isWhiteSpace (rev (dropWhile isWhiteSpace s)))"

text \<open>
  \<^verbatim>\<open>String.prototype.toLowerCase\<close>: below code unit 256 the letters with a lower-case form are
  A-Z and the Latin-1 capitals 192-222 except the multiplication sign 215; each maps to
  the code unit 32 above it.
\<close>

definition toLowerChar :: "char \<Rightarrow> char" where
  "toLowerChar c =
     (let n = of_char c :: nat
      in if (65 \<le> n \<and> n \<le> 90) \<or> (192 \<le> n \<and> n \<le> 222 \<and> n \<noteq> 215)
         then char_of (n + 32) else c)"

definition toLowerCase :: "string \<Rightarrow> string" where
  "toLowerCase s = map toLowerChar s"

fun startsWith :: "string \<Rightarrow> string \<Rightarrow> bool" where
  "startsWith s [] = True"
| "startsWith [] (c # cs) = False"
| "startsWith (x # xs) (c # cs) = (x = c \<and> startsWith xs cs)"

text \<open>\<^verbatim>\<open>String.prototype.includes\<close>: the argument occurs as a contiguous substring.\<close>

fun str_includes :: "string \<Rightarrow> string \<Rightarrow> bool" where
  "str_includes [] sub = (sub = [])"
| "str_includes (x # xs) sub = (startsWith (x # xs) sub \<or> str_includes xs sub)"

section \<open>security.ts\<close>

text \<open>The character class \<^verbatim>\<open>[a-z0-9_-]\<close>.\<close>

definition usernameChar :: "char \<Rightarrow> bool" where
  "usernameChar c =
     (let n = of_char c :: nat
      in (97 \<le> n \<and> n \<le> 122) \<or> (48 \<le> n \<and> n \<le> 57) \<or> c = CHR ''_'' \<or> c = CHR ''-'')"

text \<open>
  \<^verbatim>\<open>USERNAME_REGEX = /^[a-z0-9_-]{1,32}$/\<close>, as the predicate \<^verbatim>\<open>USERNAME_REGEX.test\<close>
  computes. Without the \<^verbatim>\<open>m\<close> flag \<^verbatim>\<open>$\<close> matches at the end of the input only.
\<close>

definition USERNAME_REGEX :: "string \<Rightarrow> bool" where
  "USERNAME_REGEX s = (1 \<le> length s \<and> length s \<le> 32 \<and> list_all usernameChar s)"

definition validateAndNormalizeUsername :: "jsval \<Rightarrow> error + string" where
  "validateAndNormalizeUsername username =
     (case username of
        JStr s \<Rightarrow>
          (let normalized = toLowerCase (trim s)
           in if length normalized = 0 then Inl UsernameEmpty
              else if length normalized > 32 then Inl UsernameTooLong
              else if \<not> USERNAME_REGEX normalized then Inl UsernamePattern
              else if normalized = ''.'' \<or> normalized = ''..'' then Inl UsernameInvalid
              else if str_includes normalized ''..'' then Inl UsernameInvalid
              else Inr normalized)
      | _ \<Rightarrow> Inl UsernameNotString)"

text \<open>
  \<^verbatim>\<open>Number.isInteger\<close> is false of everything that is not a number. The comparisons of
  \<open>validateTerminalDimensions\<close> are reached only behind \<^verbatim>\<open>!Number.isInteger(x) ||\<close>, that
  is on numbers, where they are the order of the rationals.
\<close>

fun isInteger :: "jsval \<Rightarrow> bool" where
  "isInteger (JNum r) = (of_int \<lfloor>r\<rfloor> = r)"
| "isInteger _ = False"

fun numLess :: "jsval \<Rightarrow> rat \<Rightarrow> bool" where
  "numLess (JNum r) b = (r < b)"
| "numLess _ b = False"

fun numGreater :: "jsval \<Rightarrow> rat \<Rightarrow> bool" where
  "numGreater (JNum r) b = (r > b)"
| "numGreater _ b = False"

definition validateTerminalDimensions :: "jsval \<Rightarrow> jsval \<Rightarrow> error + unit" where
  "validateTerminalDimensions cols rows =
     (if \<not> isInteger cols \<or> numLess cols 1 \<or> numGreater cols 1000 then Inl InvalidColumns
      else if \<not> isInteger rows \<or> numLess rows 1 \<or> numGreater rows 1000 then Inl InvalidRows
      else Inr ())"

definition validatePathComponent :: "string \<Rightarrow> error + unit" where
  "validatePathComponent input =
     (if str_includes input [CHR 0x00] then Inl NullBytes
      else if str_includes input ''..'' then Inl DirectoryTraversal
      else if str_includes input ''/'' \<or> str_includes input [CHR 0x5C] then Inl PathSeparators
      else if input = ''.'' \<or> input = ''..'' then Inl InvalidPathComponent
      else Inr ())"

definition sanitizeTerminalInput :: "jsval \<Rightarrow> error + string" where
  "sanitizeTerminalInput data =
     (case data of
        JStr s \<Rightarrow> if length s > 10000 then Inl InputTooLarge else Inr s
      | _ \<Rightarrow> Inl InputNotString)"

section \<open>The sockets and processes the manager refers to\<close>

text \<open>
  A \<^verbatim>\<open>WebSocket\<close> and a \<^verbatim>\<open>PtyProcess\<close> are objects of the libraries \<^verbatim>\<open>ws\<close> and
  \<^verbatim>\<open>node-pty\<close>; the code holds references to them and several places hold the same
  reference. They live in two stores of the state, indexed by the reference (a number).

  A socket handed to the \<^verbatim>\<open>connection\<close> handler is past its handshake, so its
  \<^verbatim>\<open>readyState\<close> is 1 (\<open>OPEN\<close>), 2 (\<open>CLOSING\<close>) or 3 (\<open>CLOSED\<close>). \<open>sent\<close> is the sequence of
  frames the code has handed to \<^verbatim>\<open>ws.send\<close>, each the object it passed through
  \<^verbatim>\<open>JSON.stringify\<close>. \<^verbatim>\<open>ws.close()\<close> starts the closing handshake: an open socket becomes
  \<open>CLOSING\<close> at once, and the \<^verbatim>\<open>close\<close> event that ends in \<open>CLOSED\<close> comes later, from the
  transport.
\<close>

datatype ready_state = OPEN | CLOSING | CLOSED

datatype frame = DataFrame string | ConnectedFrame | ExitFrame int | ErrorFrame string

record websocket =
  readyState :: ready_state
  sent :: "frame list"
  closeCalls :: nat

text \<open>
  Of a process the model keeps what the code does to it: the listeners registered on it
  (\<open>exitOwner\<close> is the \<^verbatim>\<open>normalizedUsername\<close> the \<^verbatim>\<open>exit\<close> listener of \<open>createSession\<close> closes
  over, \<open>exitOnce\<close> and \<open>dataListeners\<close> the sockets whose \<^verbatim>\<open>exitHandler\<close> and
  \<^verbatim>\<open>dataHandler\<close> are registered, in registration order), the arguments of the calls of
  \<^verbatim>\<open>write\<close> and \<^verbatim>\<open>resize\<close>, and whether \<^verbatim>\<open>kill\<close> has gone through. \<^verbatim>\<open>write\<close> and
  \<^verbatim>\<open>resize\<close> are taken to return normally.
\<close>

record ptyproc =
  exitOwner :: string
  exitOnce :: "nat list"
  dataListeners :: "nat list"
  written :: "string list"
  resized :: "(jsval \<times> jsval) list"
  killed :: bool

record PtySession =
  pty :: nat
  created :: int
  lastActivity :: int
  subscribers :: "nat list"

text \<open>
  \<open>sessions\<close> is the \<^verbatim>\<open>Map\<close> of the manager, in insertion order: \<open>map_of\<close> is \<^verbatim>\<open>get\<close>,
  \<open>AList.update\<close> is \<^verbatim>\<open>set\<close> (in place for a key that is present, at the end otherwise) and
  \<open>AList.delete\<close> is \<^verbatim>\<open>delete\<close>. A session object is mutated through the reference the
  \<^verbatim>\<open>Map\<close> holds, that is, by replacing the entry in place. \<open>clock\<close> is what \<^verbatim>\<open>Date.now()\<close>
  returns. \<open>spawnFails\<close> and \<open>killFails\<close> are the environment: whether \<^verbatim>\<open>pty.spawn\<close> raises,
  and for which processes \<^verbatim>\<open>kill\<close> raises.

  A method that can raise returns \<open>error + result\<close>, \<open>Inl\<close> for the exception. The
  exception is all that \<open>Inl\<close> carries: the model says when a method raises, not in which
  state the raise leaves the registry.
\<close>

record world =
  sessions :: "(string \<times> PtySession) list"
  sockets :: "nat \<Rightarrow> websocket"
  ptys :: "nat \<Rightarrow> ptyproc"
  nextPty :: nat
  clock :: int
  spawnFails :: bool
  killFails :: "nat \<Rightarrow> bool"

definition ws_send :: "nat \<Rightarrow> frame \<Rightarrow> world \<Rightarrow> world" where
  "ws_send ws m w =
     w\<lparr>sockets := (sockets w)(ws := (sockets w ws)\<lparr>sent := sent (sockets w ws) @ [m]\<rparr>)\<rparr>"

definition ws_close :: "nat \<Rightarrow> world \<Rightarrow> world" where
  "ws_close ws w =
     w\<lparr>sockets := (sockets w)(ws := (sockets w ws)
          \<lparr>readyState := (if readyState (sockets w ws) = OPEN then CLOSING
                           else readyState (sockets w ws)),
           closeCalls := closeCalls (sockets w ws) + 1\<rparr>)\<rparr>"

text \<open>
  \<^verbatim>\<open>try { session.pty.kill() } catch (error) { console.error(...) }\<close>: a kill that raises
  is logged and leaves the process as it was.
\<close>

definition pty_kill :: "nat \<Rightarrow> world \<Rightarrow> world" where
  "pty_kill p w =
     (if killFails w p then w
      else w\<lparr>ptys := (ptys w)(p := (ptys w p)\<lparr>killed := True\<rparr>)\<rparr>)"

definition pty_write :: "nat \<Rightarrow> string \<Rightarrow> world \<Rightarrow> world" where
  "pty_write p s w = w\<lparr>ptys := (ptys w)(p := (ptys w p)\<lparr>written := written (ptys w p) @ [s]\<rparr>)\<rparr>"

definition pty_resize :: "nat \<Rightarrow> jsval \<Rightarrow> jsval \<Rightarrow> world \<Rightarrow> world" where
  "pty_resize p c r w =
     w\<lparr>ptys := (ptys w)(p := (ptys w p)\<lparr>resized := resized (ptys w p) @ [(c, r)]\<rparr>)\<rparr>"

section \<open>PtyManager.ts\<close>

text \<open>The state after \<^verbatim>\<open>new PtyManager(config)\<close>: an empty \<^verbatim>\<open>Map\<close>.\<close>

definition newManager :: "world \<Rightarrow> world" where
  "newManager w = w\<lparr>sessions := []\<rparr>"

text \<open>The callback of \<^verbatim>\<open>session.subscribers.forEach\<close> in \<open>cleanupSession\<close>.\<close>

definition notifySubscriber :: "nat \<Rightarrow> world \<Rightarrow> world" where
  "notifySubscriber ws w =
     (if readyState (sockets w ws) = OPEN then ws_close ws (ws_send ws (ExitFrame 0) w) else w)"

definition cleanupSession :: "string \<Rightarrow> world \<Rightarrow> error + world" where
  "cleanupSession username w =
     (case validateAndNormalizeUsername (JStr username) of
        Inl e \<Rightarrow> Inl e
      | Inr normalizedUsername \<Rightarrow>
          (case map_of (sessions w) normalizedUsername of
             None \<Rightarrow> Inr w
           | Some session \<Rightarrow>
               (let w1 = fold notifySubscriber (subscribers session) w;
                    w2 = pty_kill (pty session) w1
                in Inr (w2\<lparr>sessions := AList.delete normalizedUsername (sessions w2)\<rparr>))))"

text \<open>
  \<open>createSession\<close> returns the session it registered. The new process takes the next free
  reference; its only listener is the \<^verbatim>\<open>exit\<close> listener that calls
  \<^verbatim>\<open>this.cleanupSession(normalizedUsername)\<close>.
\<close>

definition createSession :: "string \<Rightarrow> world \<Rightarrow> error + (PtySession \<times> world)" where
  "createSession username w =
     (case validateAndNormalizeUsername (JStr username) of
        Inl e \<Rightarrow> Inl e
      | Inr normalizedUsername \<Rightarrow>
          (case validatePathComponent normalizedUsername of
             Inl e \<Rightarrow> Inl e
           | Inr _ \<Rightarrow>
               if spawnFails w then Inl SpawnFailed
               else
                 (let ptyProcess = nextPty w;
                      session = \<lparr>pty = ptyProcess, created = clock w, lastActivity = clock w,
                                 subscribers = []\<rparr>
                  in Inr (session,
                          w\<lparr>sessions := AList.update normalizedUsername session (sessions w),
                            ptys := (ptys w)(ptyProcess :=
                              \<lparr>exitOwner = normalizedUsername, exitOnce = [], dataListeners = [],
                               written = [], resized = [], killed = False\<rparr>),
                            nextPty := ptyProcess + 1\<rparr>))))"

definition getOrCreateSession :: "string \<Rightarrow> bool \<Rightarrow> world \<Rightarrow> error + (PtySession \<times> world)" where
  "getOrCreateSession username forceNew w =
     (case validateAndNormalizeUsername (JStr username) of
        Inl e \<Rightarrow> Inl e
      | Inr normalizedUsername \<Rightarrow>
          (case (if forceNew \<and> map_of (sessions w) normalizedUsername \<noteq> None
                 then cleanupSession normalizedUsername w else Inr w) of
             Inl e \<Rightarrow> Inl e
           | Inr w1 \<Rightarrow>
               (case map_of (sessions w1) normalizedUsername of
                  Some session \<Rightarrow>
                    (let session' = session\<lparr>lastActivity := clock w1\<rparr>
                     in Inr (session',
                             w1\<lparr>sessions := AList.update normalizedUsername session' (sessions w1)\<rparr>))
                | None \<Rightarrow> createSession normalizedUsername w1)))"

definition hasActiveSession :: "string \<Rightarrow> world \<Rightarrow> error + bool" where
  "hasActiveSession username w =
     (case validateAndNormalizeUsername (JStr username) of
        Inl e \<Rightarrow> Inl e
      | Inr normalizedUsername \<Rightarrow> Inr (map_of (sessions w) normalizedUsername \<noteq> None))"

definition getSession :: "string \<Rightarrow> world \<Rightarrow> error + PtySession option" where
  "getSession username w =
     (case validateAndNormalizeUsername (JStr username) of
        Inl e \<Rightarrow> Inl e
      | Inr normalizedUsername \<Rightarrow> Inr (map_of (sessions w) normalizedUsername))"

definition attachToSession :: "string \<Rightarrow> nat \<Rightarrow> world \<Rightarrow> error + world" where
  "attachToSession username ws w =
     (case validateAndNormalizeUsername (JStr username) of
        Inl e \<Rightarrow> Inl e
      | Inr normalizedUsername \<Rightarrow>
          (case map_of (sessions w) normalizedUsername of
             None \<Rightarrow> Inr w
           | Some session \<Rightarrow>
               if ws \<notin> set (subscribers session)
               then Inr (w\<lparr>sessions := AList.update normalizedUsername
                              (session\<lparr>subscribers := subscribers session @ [ws],
                                       lastActivity := clock w\<rparr>) (sessions w)\<rparr>)
               else Inr w))"

text \<open>\<^verbatim>\<open>indexOf\<close> and \<^verbatim>\<open>splice(index, 1)\<close> remove the first occurrence.\<close>

definition detachFromSession :: "string \<Rightarrow> nat \<Rightarrow> world \<Rightarrow> error + world" where
  "detachFromSession username ws w =
     (case validateAndNormalizeUsername (JStr username) of
        Inl e \<Rightarrow> Inl e
      | Inr normalizedUsername \<Rightarrow>
          (case map_of (sessions w) normalizedUsername of
             None \<Rightarrow> Inr w
           | Some session \<Rightarrow>
               if ws \<in> set (subscribers session)
               then Inr (w\<lparr>sessions := AList.update normalizedUsername
                              (session\<lparr>subscribers := remove1 ws (subscribers session)\<rparr>)
                              (sessions w)\<rparr>)
               else Inr w))"

text \<open>
  The loop of \<open>cleanupInactiveSessions\<close> runs over the live iterator of the \<^verbatim>\<open>Map\<close> while
  its body deletes entries: the keys are visited in insertion order, a key deleted before
  its turn is skipped, and each turn reads the entry the \<^verbatim>\<open>Map\<close> holds then.
\<close>

definition inactive :: "int \<Rightarrow> int \<Rightarrow> PtySession \<Rightarrow> bool" where
  "inactive now timeoutMs session =
     (length (subscribers session) = 0 \<and> now - lastActivity session > timeoutMs)"

fun sweepInactive :: "string list \<Rightarrow> int \<Rightarrow> int \<Rightarrow> nat \<Rightarrow> world \<Rightarrow> error + (nat \<times> world)" where
  "sweepInactive [] now timeoutMs cleaned w = Inr (cleaned, w)"
| "sweepInactive (username # rest) now timeoutMs cleaned w =
     (case map_of (sessions w) username of
        None \<Rightarrow> sweepInactive rest now timeoutMs cleaned w
      | Some session \<Rightarrow>
          if inactive now timeoutMs session
          then (case cleanupSession username w of
                  Inl e \<Rightarrow> Inl e
                | Inr w' \<Rightarrow> sweepInactive rest now timeoutMs (cleaned + 1) w')
          else sweepInactive rest now timeoutMs cleaned w)"

definition cleanupInactiveSessions :: "int \<Rightarrow> world \<Rightarrow> error + (nat \<times> world)" where
  "cleanupInactiveSessions timeoutMs w =
     sweepInactive (map fst (sessions w)) (clock w) timeoutMs 0 w"

fun shutdownLoop :: "string list \<Rightarrow> world \<Rightarrow> error + world" where
  "shutdownLoop [] w = Inr w"
| "shutdownLoop (username # rest) w =
     (case map_of (sessions w) username of
        None \<Rightarrow> shutdownLoop rest w
      | Some _ \<Rightarrow>
          (case cleanupSession username w of
             Inl e \<Rightarrow> Inl e
           | Inr w' \<Rightarrow> shutdownLoop rest w'))"

definition shutdownAll :: "world \<Rightarrow> error + world" where
  "shutdownAll w = shutdownLoop (map fst (sessions w)) w"

section \<open>websocket/terminal.ts\<close>

text \<open>
  The handlers that \<open>setupTerminalWebSocket\<close> installs for one connection are closures
  over the socket \<open>ws\<close>, the verified \<open>username\<close> and the process \<open>p\<close> of the session the
  connection obtained; here these are parameters. The handlers are modelled from the point
  where the token has been verified and, for a message, where \<^verbatim>\<open>JSON.parse\<close> has returned
  an object (a text that does not parse is logged and dropped by the outer
  \<^verbatim>\<open>try/catch\<close>). \<open>wsmessage\<close> holds the four fields the handler reads, \<open>JUndefined\<close> for
  an absent one.
\<close>

record wsmessage =
  msgType :: jsval
  msgData :: jsval
  msgCols :: jsval
  msgRows :: jsval

definition dataHandler :: "nat \<Rightarrow> string \<Rightarrow> world \<Rightarrow> world" where
  "dataHandler ws d w =
     (if readyState (sockets w ws) = OPEN then ws_send ws (DataFrame d) w else w)"

definition exitHandler :: "nat \<Rightarrow> int \<Rightarrow> world \<Rightarrow> world" where
  "exitHandler ws code w =
     (if readyState (sockets w ws) = OPEN then ws_close ws (ws_send ws (ExitFrame code) w) else w)"

definition onMessage :: "nat \<Rightarrow> nat \<Rightarrow> wsmessage \<Rightarrow> world \<Rightarrow> world" where
  "onMessage p ws msg w =
     (if msgType msg = JStr ''input'' then
        (if truthy (msgData msg) then
           (case sanitizeTerminalInput (msgData msg) of
              Inr sanitizedInput \<Rightarrow> pty_write p sanitizedInput w
            | Inl e \<Rightarrow> ws_send ws (ErrorFrame ''Invalid input'') w)
         else w)
      else if msgType msg = JStr ''resize'' then
        (if truthy (msgCols msg) \<and> truthy (msgRows msg) then
           (case validateTerminalDimensions (msgCols msg) (msgRows msg) of
              Inr _ \<Rightarrow> pty_resize p (msgCols msg) (msgRows msg) w
            | Inl e \<Rightarrow> w)
         else w)
      else w)"

definition onClose :: "string \<Rightarrow> nat \<Rightarrow> nat \<Rightarrow> world \<Rightarrow> error + world" where
  "onClose username p ws w =
     detachFromSession username ws
       (w\<lparr>ptys := (ptys w)(p := (ptys w p)
            \<lparr>dataListeners := remove1 ws (dataListeners (ptys w p))\<rparr>)\<rparr>)"

definition onConnection :: "string \<Rightarrow> nat \<Rightarrow> world \<Rightarrow> error + world" where
  "onConnection username ws w =
     (case getOrCreateSession username True w of
        Inl e \<Rightarrow> Inl e
      | Inr (session, w1) \<Rightarrow>
          (case attachToSession username ws w1 of
             Inl e \<Rightarrow> Inl e
           | Inr w2 \<Rightarrow>
               (let p = pty session;
                    w3 = w2\<lparr>ptys := (ptys w2)(p := (ptys w2 p)
                            \<lparr>dataListeners := dataListeners (ptys w2 p) @ [ws]\<rparr>)\<rparr>;
                    w4 = w3\<lparr>ptys := (ptys w3)(p := (ptys w3 p)
                            \<lparr>exitOnce := exitOnce (ptys w3 p) @ [ws]\<rparr>)\<rparr>
                in Inr (ws_send ws ConnectedFrame w4))))"

text \<open>
  The process \<open>p\<close> emits \<^verbatim>\<open>exit\<close> with \<open>code\<close>. The emitter calls the listeners in the order
  they were registered: first the one \<open>createSession\<close> registered with \<^verbatim>\<open>on\<close>, which
  cleans up whatever session is registered under its user name, then the \<^verbatim>\<open>exitHandler\<close>
  of every connection that registered one with \<^verbatim>\<open>once\<close>. A listener that raises ends the
  emission.
\<close>

definition emitExit :: "nat \<Rightarrow> int \<Rightarrow> world \<Rightarrow> error + world" where
  "emitExit p code w =
     (case cleanupSession (exitOwner (ptys w p)) w of
        Inl e \<Rightarrow> Inl e
      | Inr w1 \<Rightarrow>
          Inr (fold (\<lambda>ws. exitHandler ws code) (exitOnce (ptys w p))
                 (w1\<lparr>ptys := (ptys w1)(p := (ptys w1 p)\<lparr>exitOnce := []\<rparr>)\<rparr>)))"

definition emitData :: "nat \<Rightarrow> string \<Rightarrow> world \<Rightarrow> world" where
  "emitData p d w = fold (\<lambda>ws. dataHandler ws d) (dataListeners (ptys w p)) w"

section \<open>Invariants and observations\<close>

text \<open>The number of \<^verbatim>\<open>{type: 'exit', code}\<close> frames among the frames sent to a socket.\<close>

fun isExit :: "frame \<Rightarrow> bool" where
  "isExit (ExitFrame code) = True"
| "isExit _ = False"

definition exitCount :: "frame list \<Rightarrow> nat" where
  "exitCount fs = length (filter isExit fs)"

text \<open>
  Every key of the registry is a normalized user name: \<open>createSession\<close> is the only place
  that adds a key, and it adds what \<open>validateAndNormalizeUsername\<close> returned. A \<^verbatim>\<open>Map\<close> holds
  each key once.
\<close>

definition keysNormalized :: "world \<Rightarrow> bool" where
  "keysNormalized w =
     (distinct (map fst (sessions w)) \<and>
      list_all (\<lambda>k. validateAndNormalizeUsername (JStr k) = Inr k) (map fst (sessions w)))"

text \<open>
  Process references are handed out in order: the process of every registered session
  has a reference below the next free one.
\<close>

definition ptysAllocated :: "world \<Rightarrow> bool" where
  "ptysAllocated w = list_all (\<lambda>e. pty (snd e) < nextPty w) (sessions w)"

definition noDuplicateSubscribers :: "world \<Rightarrow> bool" where
  "noDuplicateSubscribers w = list_all (\<lambda>e. distinct (subscribers (snd e))) (sessions w)"

text \<open>
  The operations that change the registry: the methods of \<open>PtyManager\<close>, and the event
  handlers that call them.
\<close>

datatype operation =
    GetOrCreateSession string bool
  | CreateSession string
  | AttachToSession string nat
  | DetachFromSession string nat
  | CleanupSession string
  | CleanupInactiveSessions int
  | ShutdownAll
  | OnConnection string nat
  | OnClose string nat nat
  | EmitExit nat int

fun perform :: "operation \<Rightarrow> world \<Rightarrow> error + world" where
  "perform (GetOrCreateSession username forceNew) w = map_sum id snd (getOrCreateSession username forceNew w)"
| "perform (CreateSession username) w = map_sum id snd (createSession username w)"
| "perform (AttachToSession username ws) w = attachToSession username ws w"
| "perform (DetachFromSession username ws) w = detachFromSession username ws w"
| "perform (CleanupSession username) w = cleanupSession username w"
| "perform (CleanupInactiveSessions timeoutMs) w = map_sum id snd (cleanupInactiveSessions timeoutMs w)"
| "perform ShutdownAll w = shutdownAll w"
| "perform (OnConnection username ws) w = onConnection username ws w"
| "perform (OnClose username p ws) w = onClose username p ws w"
| "perform (EmitExit p code) w = emitExit p code w"

text \<open>
  A key whose registered session the sweep would destroy: no subscriber, and idle for
  longer than the timeout.
\<close>

definition inactiveKey :: "int \<Rightarrow> int \<Rightarrow> world \<Rightarrow> string \<Rightarrow> bool" where
  "inactiveKey now timeoutMs w k =
     (case map_of (sessions w) k of None \<Rightarrow> False | Some session \<Rightarrow> inactive now timeoutMs session)"

text \<open>
  The range of the resize request in the words of the specification: a number that is an
  integer and lies between 1 and 1000.
\<close>

definition integerInRange :: "jsval \<Rightarrow> bool" where
  "integerInRange v = (case v of JNum r \<Rightarrow> r \<in> \<int> \<and> 1 \<le> r \<and> r \<le> 1000 | _ \<Rightarrow> False)"

text \<open>
  The operations that destroy or replace the session registered for the identity \<open>n\<close>
  when they run in the state \<open>w\<close>: a cleanup of \<open>n\<close>, asked for directly, forced by
  \<open>forceNew\<close> (as every connection does) or started by the exit of a process whose listener
  names \<open>n\<close>; a sweep that finds the session of \<open>n\<close> inactive; the shutdown; and
  \<open>createSession\<close> called for \<open>n\<close>, which overwrites the entry.
\<close>

fun destroys :: "string \<Rightarrow> world \<Rightarrow> operation \<Rightarrow> bool" where
  "destroys n w (GetOrCreateSession username forceNew) =
     (forceNew \<and> validateAndNormalizeUsername (JStr username) = Inr n)"
| "destroys n w (CreateSession username) = (validateAndNormalizeUsername (JStr username) = Inr n)"
| "destroys n w (AttachToSession username ws) = False"
| "destroys n w (DetachFromSession username ws) = False"
| "destroys n w (CleanupSession username) = (validateAndNormalizeUsername (JStr username) = Inr n)"
| "destroys n w (CleanupInactiveSessions timeoutMs) = inactiveKey (clock w) timeoutMs w n"
| "destroys n w ShutdownAll = True"
| "destroys n w (OnConnection username ws) = (validateAndNormalizeUsername (JStr username) = Inr n)"
| "destroys n w (OnClose username p ws) = False"
| "destroys n w (EmitExit p code) =
     (validateAndNormalizeUsername (JStr (exitOwner (ptys w p))) = Inr n)"

text \<open>
  A run of operations, each at the time given with it, with no destroy of the session of
  \<open>n\<close> among them: \<open>Some\<close> of the state the run ends in, \<open>None\<close> when a step is such a
  destroy or raises.
\<close>

fun runWithoutDestroy :: "string \<Rightarrow> (int \<times> operation) list \<Rightarrow> world \<Rightarrow> world option" where
  "runWithoutDestroy n [] w = Some w"
| "runWithoutDestroy n (step # rest) w =
     (let w0 = w\<lparr>clock := fst step\<rparr>
      in if destroys n w0 (snd step) then None
         else (case perform (snd step) w0 of
                 Inl e \<Rightarrow> None
               | Inr w' \<Rightarrow> runWithoutDestroy n rest w'))"

section \<open>Example states\<close>

definition freshSocket :: websocket where
  "freshSocket = \<lparr>readyState = OPEN, sent = [], closeCalls = 0\<rparr>"

definition noProcess :: ptyproc where
  "noProcess = \<lparr>exitOwner = [], exitOnce = [], dataListeners = [], written = [],
                 resized = [], killed = False\<rparr>"

text \<open>A server that has just started: no session, every socket still to connect.\<close>

definition emptyWorld :: world where
  "emptyWorld = \<lparr>sessions = [], sockets = (\<lambda>_. freshSocket), ptys = (\<lambda>_. noProcess),
                  nextPty = 0, clock = 1000, spawnFails = False, killFails = (\<lambda>_. False)\<rparr>"

text \<open>
  The state after the connection of socket 0 for \<^verbatim>\<open>alice\<close> to the server that has just
  started, written out: \<open>onConnection_emptyWorld\<close> below shows that it is that state.
\<close>

definition connectedWorld :: world where
  "connectedWorld =
     \<lparr>sessions = [(''alice'', \<lparr>pty = 0, created = 1000, lastActivity = 1000, subscribers = [0]\<rparr>)],
      sockets = (\<lambda>_. freshSocket)(0 := \<lparr>readyState = OPEN, sent = [ConnectedFrame], closeCalls = 0\<rparr>),
      ptys = (\<lambda>_. noProcess)(0 := \<lparr>exitOwner = ''alice'', exitOnce = [0], dataListeners = [0],
                                     written = [], resized = [], killed = False\<rparr>),
      nextPty = 1, clock = 1000, spawnFails = False, killFails = (\<lambda>_. False)\<rparr>"

text \<open>
  The same state once the browser has started to close socket 0 (a tab that reloads): the
  socket is \<open>CLOSING\<close>, and its \<^verbatim>\<open>close\<close> event, which would detach it, has not been
  delivered yet.
\<close>

definition closingWorld :: world where
  "closingWorld =
     connectedWorld\<lparr>sockets := (sockets connectedWorld)
       (0 := (sockets connectedWorld 0)\<lparr>readyState := CLOSING\<rparr>)\<rparr>"

text \<open>
  A registry with two sessions, as the methods of \<open>PtyManager\<close> can build it: \<^verbatim>\<open>alice\<close> has
  two viewers attached, socket 0 open and socket 1 closing; \<^verbatim>\<open>bob\<close> has none and was last
  active at 1500. The kill of the process of \<^verbatim>\<open>bob\<close> raises.
\<close>

definition twoSessions :: world where
  "twoSessions =
     \<lparr>sessions = [(''alice'', \<lparr>pty = 0, created = 1000, lastActivity = 1000, subscribers = [0, 1]\<rparr>),
                  (''bob'', \<lparr>pty = 1, created = 1500, lastActivity = 1500, subscribers = []\<rparr>)],
      sockets = (\<lambda>_. freshSocket)(1 := \<lparr>readyState = CLOSING, sent = [], closeCalls = 0\<rparr>),
      ptys = (\<lambda>_. noProcess)
               (0 := \<lparr>exitOwner = ''alice'', exitOnce = [0, 1], dataListeners = [0, 1],
                      written = [], resized = [], killed = False\<rparr>,
                1 := \<lparr>exitOwner = ''bob'', exitOnce = [], dataListeners = [],
                      written = [], resized = [], killed = False\<rparr>),
      nextPty = 2, clock = 9000, spawnFails = False, killFails = (\<lambda>_. False)(1 := True)\<rparr>"


definition inputMessage :: "jsval \<Rightarrow> wsmessage" where
  "inputMessage d = \<lparr>msgType = JStr ''input'', msgData = d, msgCols = JUndefined, msgRows = JUndefined\<rparr>"

definition resizeMessage :: "jsval \<Rightarrow> jsval \<Rightarrow> wsmessage" where
  "resizeMessage c r = \<lparr>msgType = JStr ''resize'', msgData = JUndefined, msgCols = c, msgRows = r\<rparr>"

section \<open>User names\<close>

lemma usernameChar_not_ws: "usernameChar c \<Longrightarrow> \<not> isWhiteSpace c"
  by (auto simp: usernameChar_def isWhiteSpace_def Let_def)

lemma usernameChar_lower: "usernameChar c \<Longrightarrow> toLowerChar c = c"
  by (auto simp: usernameChar_def toLowerChar_def Let_def)

lemma usernameChar_not_special:
  "usernameChar c \<Longrightarrow> c \<noteq> CHR ''.'' \<and> c \<noteq> CHR ''/'' \<and> c \<noteq> CHR 0x5C \<and> c \<noteq> CHR 0x00"
  by (auto simp: usernameChar_def Let_def)

lemma toLowerCase_id: "list_all usernameChar s \<Longrightarrow> toLowerCase s = s"
  by (induction s) (auto simp: toLowerCase_def usernameChar_lower)

lemma dropWhile_id: "list_all usernameChar s \<Longrightarrow> dropWhile isWhiteSpace s = s"
  by (cases s) (auto simp: usernameChar_not_ws)

lemma trim_id: "list_all usernameChar s \<Longrightarrow> trim s = s"
proof -
  assume a: "list_all usernameChar s"
  then have "list_all usernameChar (rev s)" by (simp add: list_all_iff)
  then show ?thesis using a by (simp add: trim_def dropWhile_id)
qed

lemma str_includes_mem: "str_includes s (c # cs) \<Longrightarrow> c \<in> set s"
  by (induction s) (auto split: if_splits)

lemma normalized_fixed:
  assumes "USERNAME_REGEX r" and "\<not> str_includes r ''..''"
  shows "validateAndNormalizeUsername (JStr r) = Inr r"
proof -
  from assms(1) have len: "1 \<le> length r" "length r \<le> 32" and all: "list_all usernameChar r"
    by (auto simp: USERNAME_REGEX_def)
  have fixd: "toLowerCase (trim r) = r" using all by (simp add: trim_id toLowerCase_id)
  from len have ne: "r \<noteq> []" by auto
  have "CHR ''.'' \<notin> set r" using all usernameChar_not_special by (auto simp: list_all_iff)
  then have nd: "r \<noteq> ''.''" "r \<noteq> ''..''" by auto
  show ?thesis
    using assms nd len ne fixd by (simp add: validateAndNormalizeUsername_def Let_def)
qed

lemma validate_result_regex:
  assumes "validateAndNormalizeUsername raw = Inr r"
  shows "USERNAME_REGEX r \<and> \<not> str_includes r ''..''"
proof -
  from assms obtain s where raw: "raw = JStr s"
    by (cases raw) (auto simp: validateAndNormalizeUsername_def)
  from assms raw show ?thesis
    by (auto simp: validateAndNormalizeUsername_def Let_def split: if_splits)
qed

lemma validate_idem:
  "validateAndNormalizeUsername raw = Inr r \<Longrightarrow> validateAndNormalizeUsername (JStr r) = Inr r"
  using validate_result_regex normalized_fixed by blast

lemma validate_path:
  assumes "validateAndNormalizeUsername raw = Inr r"
  shows "validatePathComponent r = Inr ()"
proof -
  from validate_result_regex [OF assms] have all: "list_all usernameChar r"
    and ni: "\<not> str_includes r ''..''"
    by (auto simp: USERNAME_REGEX_def)
  have "CHR 0x00 \<notin> set r" "CHR ''/'' \<notin> set r" "CHR 0x5C \<notin> set r" "CHR ''.'' \<notin> set r"
    using all usernameChar_not_special by (auto simp: list_all_iff)
  then have "\<not> str_includes r [CHR 0x00]" "\<not> str_includes r ''/''" "\<not> str_includes r [CHR 0x5C]"
    "r \<noteq> ''.''" "r \<noteq> ''..''"
    using str_includes_mem by auto
  with ni show ?thesis by (simp add: validatePathComponent_def)
qed

text \<open>
  C8. Whenever \<open>validateAndNormalizeUsername\<close> succeeds, its result is not empty, has at
  most 32 characters, consists of lower-case letters, digits, \<^verbatim>\<open>-\<close> and \<^verbatim>\<open>_\<close> only, is
  neither \<^verbatim>\<open>.\<close> nor \<^verbatim>\<open>..\<close>, contains no path separator and no \<^verbatim>\<open>..\<close>, and is returned
  unchanged when it is validated again.
\<close>

theorem validateAndNormalizeUsername_result:
  assumes "validateAndNormalizeUsername raw = Inr r"
  shows "r \<noteq> [] \<and> length r \<le> 32 \<and> (\<forall>c \<in> set r. usernameChar c)
       \<and> r \<noteq> ''.'' \<and> r \<noteq> ''..'' \<and> CHR ''/'' \<notin> set r \<and> CHR 0x5C \<notin> set r
       \<and> \<not> str_includes r ''..''
       \<and> validateAndNormalizeUsername (JStr r) = Inr r"
proof -
  from assms obtain s where raw: "raw = JStr s"
    by (cases raw) (auto simp: validateAndNormalizeUsername_def)
  from assms raw have r: "r = toLowerCase (trim s)"
    by (auto simp: validateAndNormalizeUsername_def Let_def split: if_splits)
  from assms raw r have re: "USERNAME_REGEX r" and nd: "r \<noteq> ''.''" "r \<noteq> ''..''"
    and ni: "\<not> str_includes r ''..''"
    by (auto simp: validateAndNormalizeUsername_def Let_def split: if_splits)
  from re have len: "1 \<le> length r" "length r \<le> 32" and all: "list_all usernameChar r"
    by (auto simp: USERNAME_REGEX_def)
  have chars: "\<forall>c \<in> set r. usernameChar c" using all by (simp add: list_all_iff)
  have sep: "CHR ''/'' \<notin> set r" "CHR 0x5C \<notin> set r"
    using chars usernameChar_not_special by blast+
  have fixd: "toLowerCase (trim r) = r" using all by (simp add: trim_id toLowerCase_id)
  from len have ne: "r \<noteq> []" by auto
  have idem: "validateAndNormalizeUsername (JStr r) = Inr r"
    using re nd ni len ne fixd by (simp add: validateAndNormalizeUsername_def Let_def)
  note ne
  with len chars nd sep ni idem show ?thesis by simp
qed

theorem validateAndNormalizeUsername_result_witness:
  "validateAndNormalizeUsername (JStr ''  Alice_01 '') = Inr ''alice_01''
   \<and> validateAndNormalizeUsername (JStr ''alice_01'') = Inr ''alice_01''"
proof -
  have h: "validateAndNormalizeUsername (JStr ''  Alice_01 '') = Inr ''alice_01''"
    by code_simp
  from validateAndNormalizeUsername_result [OF h] h show ?thesis by simp
qed

section \<open>Tearing a session down\<close>

lemma validate_alice: "validateAndNormalizeUsername (JStr ''alice'') = Inr ''alice''"
  by code_simp
lemma validate_bob: "validateAndNormalizeUsername (JStr ''bob'') = Inr ''bob''"
  by code_simp
lemma path_alice: "validatePathComponent ''alice'' = Inr ()"
  by code_simp

lemma notifySubscriber_exitHandler: "notifySubscriber ws w = exitHandler ws 0 w"
  by (simp add: notifySubscriber_def exitHandler_def)

lemma exitHandler_fields [simp]:
  "sessions (exitHandler ws c w) = sessions w"
  "ptys (exitHandler ws c w) = ptys w"
  "nextPty (exitHandler ws c w) = nextPty w"
  "clock (exitHandler ws c w) = clock w"
  "spawnFails (exitHandler ws c w) = spawnFails w"
  "killFails (exitHandler ws c w) = killFails w"
  by (simp_all add: exitHandler_def ws_send_def ws_close_def)

lemma exitHandler_sockets:
  "sockets (exitHandler ws c w) v =
     (if v = ws \<and> readyState (sockets w ws) = OPEN
      then \<lparr>readyState = CLOSING, sent = sent (sockets w ws) @ [ExitFrame c],
            closeCalls = closeCalls (sockets w ws) + 1\<rparr>
      else sockets w v)"
  by (simp add: exitHandler_def ws_send_def ws_close_def)

lemma fold_exitHandler_fields [simp]:
  "sessions (fold (\<lambda>ws. exitHandler ws c) l w) = sessions w"
  "ptys (fold (\<lambda>ws. exitHandler ws c) l w) = ptys w"
  "nextPty (fold (\<lambda>ws. exitHandler ws c) l w) = nextPty w"
  "clock (fold (\<lambda>ws. exitHandler ws c) l w) = clock w"
  "spawnFails (fold (\<lambda>ws. exitHandler ws c) l w) = spawnFails w"
  "killFails (fold (\<lambda>ws. exitHandler ws c) l w) = killFails w"
  by (induction l arbitrary: w; simp)+

lemma fold_exitHandler_sockets:
  "sockets (fold (\<lambda>ws. exitHandler ws c) l w) v =
     (if v \<in> set l \<and> readyState (sockets w v) = OPEN
      then \<lparr>readyState = CLOSING, sent = sent (sockets w v) @ [ExitFrame c],
            closeCalls = closeCalls (sockets w v) + 1\<rparr>
      else sockets w v)"
proof (induction l arbitrary: w)
  case Nil
  show ?case by simp
next
  case (Cons a l)
  show ?case
    by (auto simp add: Cons.IH exitHandler_sockets)
qed

lemma fold_notify: "fold notifySubscriber l w = fold (\<lambda>ws. exitHandler ws 0) l w"
proof -
  have "notifySubscriber = (\<lambda>ws. exitHandler ws 0)"
    by (intro ext) (rule notifySubscriber_exitHandler)
  then show ?thesis by simp
qed

lemma pty_kill_fields [simp]:
  "sessions (pty_kill p w) = sessions w"
  "sockets (pty_kill p w) = sockets w"
  "nextPty (pty_kill p w) = nextPty w"
  "clock (pty_kill p w) = clock w"
  "spawnFails (pty_kill p w) = spawnFails w"
  "killFails (pty_kill p w) = killFails w"
  by (simp_all add: pty_kill_def)

lemma pty_kill_ptys:
  "ptys (pty_kill p w) q =
     (if q = p \<and> \<not> killFails w p then (ptys w p)\<lparr>killed := True\<rparr> else ptys w q)"
  by (simp add: pty_kill_def)

lemma cleanupSession_absent:
  assumes "validateAndNormalizeUsername (JStr username) = Inr n"
    and "map_of (sessions w) n = None"
  shows "cleanupSession username w = Inr w"
  using assms by (simp add: cleanupSession_def)

lemma cleanupSession_present:
  assumes "validateAndNormalizeUsername (JStr username) = Inr n"
    and "map_of (sessions w) n = Some session"
  shows "\<exists>w'. cleanupSession username w = Inr w'
           \<and> sessions w' = AList.delete n (sessions w)
           \<and> (\<forall>v. sockets w' v =
                (if v \<in> set (subscribers session) \<and> readyState (sockets w v) = OPEN
                 then \<lparr>readyState = CLOSING, sent = sent (sockets w v) @ [ExitFrame 0],
                       closeCalls = closeCalls (sockets w v) + 1\<rparr>
                 else sockets w v))
           \<and> (\<forall>q. ptys w' q =
                (if q = pty session \<and> \<not> killFails w q then (ptys w q)\<lparr>killed := True\<rparr>
                 else ptys w q))
           \<and> nextPty w' = nextPty w \<and> clock w' = clock w
           \<and> spawnFails w' = spawnFails w \<and> killFails w' = killFails w"
  using assms
  by (simp add: cleanupSession_def Let_def fold_notify fold_exitHandler_sockets pty_kill_ptys)

lemma exitCount_append [simp]: "exitCount (fs @ gs) = exitCount fs + exitCount gs"
  by (simp add: exitCount_def)

lemma exitCount_single [simp]: "exitCount [ExitFrame c] = 1" "exitCount [] = 0"
  by (simp_all add: exitCount_def)

lemma emitExit_after_cleanup:
  assumes "cleanupSession (exitOwner (ptys w p)) w = Inr w1"
  shows "emitExit p code w =
           Inr (fold (\<lambda>ws. exitHandler ws code) (exitOnce (ptys w p))
                  (w1\<lparr>ptys := (ptys w1)(p := (ptys w1 p)\<lparr>exitOnce := []\<rparr>)\<rparr>))"
  using assms by (simp add: emitExit_def)

text \<open>
  C10. Whenever \<open>cleanupSession\<close> tears a session down, each subscriber whose socket is
  open is sent one more frame, the exit frame with code 0, and a subscriber whose socket
  is not open is sent nothing. This is so too when the teardown is the one the exit of
  the process starts: whatever code the process exits with, the frame the open
  subscribers get carries 0.
\<close>

theorem cleanupSession_sends_exit_code_0:
  assumes "validateAndNormalizeUsername (JStr username) = Inr n"
    and "map_of (sessions w) n = Some session"
  shows "(\<exists>w'. cleanupSession username w = Inr w'
            \<and> (\<forall>ws. sent (sockets w' ws) =
                  (if ws \<in> set (subscribers session) \<and> readyState (sockets w ws) = OPEN
                   then sent (sockets w ws) @ [ExitFrame 0] else sent (sockets w ws))))
       \<and> (\<forall>p code. exitOwner (ptys w p) = n \<longrightarrow>
            (\<exists>w'. emitExit p code w = Inr w'
               \<and> (\<forall>ws \<in> set (subscribers session). sent (sockets w' ws) =
                     (if readyState (sockets w ws) = OPEN
                      then sent (sockets w ws) @ [ExitFrame 0] else sent (sockets w ws)))))"
proof (intro conjI allI impI)
  from cleanupSession_present [OF assms] obtain w' where
    c: "cleanupSession username w = Inr w'" and
    s: "\<forall>v. sockets w' v =
          (if v \<in> set (subscribers session) \<and> readyState (sockets w v) = OPEN
           then \<lparr>readyState = CLOSING, sent = sent (sockets w v) @ [ExitFrame 0],
                 closeCalls = closeCalls (sockets w v) + 1\<rparr>
           else sockets w v)"
    by blast
  show "\<exists>w'. cleanupSession username w = Inr w'
            \<and> (\<forall>ws. sent (sockets w' ws) =
                  (if ws \<in> set (subscribers session) \<and> readyState (sockets w ws) = OPEN
                   then sent (sockets w ws) @ [ExitFrame 0] else sent (sockets w ws)))"
    using c s by simp
next
  fix p code
  assume owner: "exitOwner (ptys w p) = n"
  have idem: "validateAndNormalizeUsername (JStr n) = Inr n"
    using assms(1) by (rule validate_idem)
  from cleanupSession_present [OF idem assms(2)] obtain w1 where
    c: "cleanupSession n w = Inr w1" and
    s: "\<forall>v. sockets w1 v =
          (if v \<in> set (subscribers session) \<and> readyState (sockets w v) = OPEN
           then \<lparr>readyState = CLOSING, sent = sent (sockets w v) @ [ExitFrame 0],
                 closeCalls = closeCalls (sockets w v) + 1\<rparr>
           else sockets w v)"
    by blast
  from c owner have e: "emitExit p code w =
      Inr (fold (\<lambda>ws. exitHandler ws code) (exitOnce (ptys w p))
             (w1\<lparr>ptys := (ptys w1)(p := (ptys w1 p)\<lparr>exitOnce := []\<rparr>)\<rparr>))"
    by (simp add: emitExit_after_cleanup)
  show "\<exists>w'. emitExit p code w = Inr w'
               \<and> (\<forall>ws \<in> set (subscribers session). sent (sockets w' ws) =
                     (if readyState (sockets w ws) = OPEN
                      then sent (sockets w ws) @ [ExitFrame 0] else sent (sockets w ws)))"
    using e s by (simp add: fold_exitHandler_sockets)
qed

lemma twoSessions_alice:
  "map_of (sessions twoSessions) ''alice'' =
     Some \<lparr>pty = 0, created = 1000, lastActivity = 1000, subscribers = [0, 1]\<rparr>"
  by (simp add: twoSessions_def)



theorem cleanupSession_sends_exit_code_0_witness:
  "sent (sockets (projr (cleanupSession ''alice'' twoSessions)) 0) = [ExitFrame 0]
   \<and> sent (sockets (projr (cleanupSession ''alice'' twoSessions)) 1) = []
   \<and> sent (sockets (projr (emitExit 0 3 twoSessions)) 0) = [ExitFrame 0]
   \<and> sent (sockets (projr (emitExit 0 3 twoSessions)) 1) = []"
proof -
  note t = cleanupSession_sends_exit_code_0 [OF validate_alice twoSessions_alice]
  have o: "exitOwner (ptys twoSessions 0) = ''alice''" by (simp add: twoSessions_def)
  have r: "readyState (sockets twoSessions 0) = OPEN" "readyState (sockets twoSessions 1) = CLOSING"
    "sent (sockets twoSessions 0) = []" "sent (sockets twoSessions 1) = []"
    by (simp_all add: twoSessions_def freshSocket_def)
  from t obtain w' where c: "cleanupSession ''alice'' twoSessions = Inr w'"
    and s: "\<forall>ws. sent (sockets w' ws) =
                  (if ws \<in> set [0, 1] \<and> readyState (sockets twoSessions ws) = OPEN
                   then sent (sockets twoSessions ws) @ [ExitFrame 0]
                   else sent (sockets twoSessions ws))"
    by auto
  from t [THEN conjunct2, rule_format, OF o, of 3]
  obtain w'' where e: "emitExit 0 3 twoSessions = Inr w''"
    and s': "\<forall>ws \<in> set [0, 1]. sent (sockets w'' ws) =
                     (if readyState (sockets twoSessions ws) = OPEN
                      then sent (sockets twoSessions ws) @ [ExitFrame 0]
                      else sent (sockets twoSessions ws))"
    by auto
  from s r have "sent (sockets w' 0) = [ExitFrame 0]" "sent (sockets w' 1) = []" by simp_all
  moreover from s' r have "sent (sockets w'' 0) = [ExitFrame 0]" "sent (sockets w'' 1) = []"
    by simp_all
  ultimately show ?thesis using c e by simp
qed

text \<open>
  C4. Destroying is idempotent. For an identity with no registered session
  \<open>cleanupSession\<close> returns the state unchanged and raises nothing. In every state it
  returns a state in which the identity has no session, so a second call right after it
  changes nothing more: over both calls each socket is sent at most one exit frame and
  closed at most once. When the kill of the process raises, the entry is removed all the
  same.
\<close>

theorem cleanupSession_idempotent:
  assumes "validateAndNormalizeUsername (JStr username) = Inr n"
  shows "(map_of (sessions w) n = None \<longrightarrow> cleanupSession username w = Inr w)
       \<and> (\<exists>w1. cleanupSession username w = Inr w1
              \<and> map_of (sessions w1) n = None
              \<and> cleanupSession username w1 = Inr w1
              \<and> (\<forall>ws. exitCount (sent (sockets w1 ws)) \<le> exitCount (sent (sockets w ws)) + 1
                     \<and> closeCalls (sockets w1 ws) \<le> closeCalls (sockets w ws) + 1))
       \<and> (\<forall>session. map_of (sessions w) n = Some session \<and> killFails w (pty session) \<longrightarrow>
              (\<exists>w1. cleanupSession username w = Inr w1 \<and> map_of (sessions w1) n = None
                  \<and> ptys w1 = ptys w))"
proof (intro conjI impI allI)
  assume "map_of (sessions w) n = None"
  with assms show "cleanupSession username w = Inr w" by (rule cleanupSession_absent)
next
  show "\<exists>w1. cleanupSession username w = Inr w1
              \<and> map_of (sessions w1) n = None
              \<and> cleanupSession username w1 = Inr w1
              \<and> (\<forall>ws. exitCount (sent (sockets w1 ws)) \<le> exitCount (sent (sockets w ws)) + 1
                     \<and> closeCalls (sockets w1 ws) \<le> closeCalls (sockets w ws) + 1)"
  proof (cases "map_of (sessions w) n")
    case None
    with assms have "cleanupSession username w = Inr w" by (rule cleanupSession_absent)
    with None show ?thesis by simp
  next
    case (Some session)
    from cleanupSession_present [OF assms Some] obtain w1 where
      c: "cleanupSession username w = Inr w1" and
      d: "sessions w1 = AList.delete n (sessions w)" and
      s: "\<forall>v. sockets w1 v =
          (if v \<in> set (subscribers session) \<and> readyState (sockets w v) = OPEN
           then \<lparr>readyState = CLOSING, sent = sent (sockets w v) @ [ExitFrame 0],
                 closeCalls = closeCalls (sockets w v) + 1\<rparr>
           else sockets w v)"
      by blast
    from d have gone: "map_of (sessions w1) n = None" by (simp add: delete_conv')
    with assms have again: "cleanupSession username w1 = Inr w1" by (rule cleanupSession_absent)
    from s have "\<forall>ws. exitCount (sent (sockets w1 ws)) \<le> exitCount (sent (sockets w ws)) + 1
                     \<and> closeCalls (sockets w1 ws) \<le> closeCalls (sockets w ws) + 1"
      by simp
    with c gone again show ?thesis by blast
  qed
next
  fix session
  assume a: "map_of (sessions w) n = Some session \<and> killFails w (pty session)"
  from cleanupSession_present [OF assms conjunct1 [OF a]] obtain w1 where
    c: "cleanupSession username w = Inr w1" and
    d: "sessions w1 = AList.delete n (sessions w)" and
    p: "\<forall>q. ptys w1 q =
                (if q = pty session \<and> \<not> killFails w q then (ptys w q)\<lparr>killed := True\<rparr>
                 else ptys w q)"
    by blast
  from d have gone: "map_of (sessions w1) n = None" by (simp add: delete_conv')
  from p a have "ptys w1 = ptys w" by (intro ext) auto
  with c gone show "\<exists>w1. cleanupSession username w = Inr w1 \<and> map_of (sessions w1) n = None
                  \<and> ptys w1 = ptys w"
    by blast
qed

lemma twoSessions_bob:
  "map_of (sessions twoSessions) ''bob'' =
     Some \<lparr>pty = 1, created = 1500, lastActivity = 1500, subscribers = []\<rparr>"
  by (simp add: twoSessions_def)

theorem cleanupSession_idempotent_witness:
  "map_of (sessions twoSessions) ''bob'' \<noteq> None
   \<and> killFails twoSessions 1
   \<and> map_of (sessions (projr (cleanupSession ''bob'' twoSessions))) ''bob'' = None
   \<and> cleanupSession ''bob'' (projr (cleanupSession ''bob'' twoSessions))
       = Inr (projr (cleanupSession ''bob'' twoSessions))
   \<and> map_of (sessions emptyWorld) ''bob'' = None
   \<and> cleanupSession ''bob'' emptyWorld = Inr emptyWorld"
proof -
  note t = cleanupSession_idempotent [OF validate_bob]
  have k: "killFails twoSessions 1" by (simp add: twoSessions_def)
  have e: "map_of (sessions emptyWorld) ''bob'' = None" by (simp add: emptyWorld_def)
  from t [of emptyWorld] e have e': "cleanupSession ''bob'' emptyWorld = Inr emptyWorld"
    by blast
  from t [of twoSessions, THEN conjunct2, THEN conjunct1]
  obtain w1 where c: "cleanupSession ''bob'' twoSessions = Inr w1"
    and g: "map_of (sessions w1) ''bob'' = None" and a: "cleanupSession ''bob'' w1 = Inr w1"
    by blast
  from c g a k e e' twoSessions_bob show ?thesis by simp
qed

section \<open>Forced replacement\<close>

lemma createSession_ok:
  assumes "validateAndNormalizeUsername (JStr username) = Inr n" and "\<not> spawnFails w"
  shows "createSession username w =
     Inr (\<lparr>pty = nextPty w, created = clock w, lastActivity = clock w, subscribers = []\<rparr>,
          w\<lparr>sessions := AList.update n
                 \<lparr>pty = nextPty w, created = clock w, lastActivity = clock w, subscribers = []\<rparr>
                 (sessions w),
            ptys := (ptys w)(nextPty w :=
                 \<lparr>exitOwner = n, exitOnce = [], dataListeners = [],
                  written = [], resized = [], killed = False\<rparr>),
            nextPty := nextPty w + 1\<rparr>)"
  using assms validate_path [OF assms(1)] by (simp add: createSession_def Let_def)

lemma filter_update_delete:
  "filter (\<lambda>e. fst e = n) (AList.update n v (AList.delete n al)) = [(n, v)]"
  by (induction al) auto

text \<open>
  What the forced replacement does up to its return. When a session is registered for the
  identity, the spawn succeeds and the old process has a reference already handed out,
  \<open>getOrCreateSession\<close> with \<open>forceNew\<close> first runs \<open>cleanupSession\<close>, which removes the
  old session, sends the exit frame to every subscriber of the old session whose socket
  is open, leaves every other socket as it was, and kills the old process (unless the kill
  raises); then it runs \<open>createSession\<close> on the state so reached. At the return the
  registry holds exactly one entry for the identity: the new session, with a new process
  that has not been killed and no subscriber.
\<close>

lemma getOrCreateSession_forceNew_replaces:
  assumes "validateAndNormalizeUsername (JStr username) = Inr n"
    and "map_of (sessions w) n = Some old"
    and "\<not> spawnFails w"
    and "pty old < nextPty w"
  shows "\<exists>w1 new w'.
           cleanupSession n w = Inr w1 \<and> map_of (sessions w1) n = None
         \<and> createSession n w1 = Inr (new, w')
         \<and> getOrCreateSession username True w = Inr (new, w')
         \<and> (\<forall>ws \<in> set (subscribers old). readyState (sockets w ws) = OPEN \<longrightarrow>
               sent (sockets w' ws) = sent (sockets w ws) @ [ExitFrame 0]
               \<and> readyState (sockets w' ws) = CLOSING)
         \<and> (\<forall>ws. sockets w' ws =
               (if ws \<in> set (subscribers old) \<and> readyState (sockets w ws) = OPEN
                then \<lparr>readyState = CLOSING, sent = sent (sockets w ws) @ [ExitFrame 0],
                      closeCalls = closeCalls (sockets w ws) + 1\<rparr>
                else sockets w ws))
         \<and> (\<not> killFails w (pty old) \<longrightarrow> killed (ptys w' (pty old)))
         \<and> map_of (sessions w') n = Some new
         \<and> length (filter (\<lambda>e. fst e = n) (sessions w')) = 1
         \<and> pty new = nextPty w \<and> pty new \<noteq> pty old \<and> subscribers new = []
         \<and> \<not> killed (ptys w' (pty new))"
proof -
  have idem: "validateAndNormalizeUsername (JStr n) = Inr n"
    using assms(1) by (rule validate_idem)
  from cleanupSession_present [OF idem assms(2)] obtain w1 where
    c: "cleanupSession n w = Inr w1" and
    d: "sessions w1 = AList.delete n (sessions w)" and
    s: "\<forall>v. sockets w1 v =
          (if v \<in> set (subscribers old) \<and> readyState (sockets w v) = OPEN
           then \<lparr>readyState = CLOSING, sent = sent (sockets w v) @ [ExitFrame 0],
                 closeCalls = closeCalls (sockets w v) + 1\<rparr>
           else sockets w v)" and
    p: "\<forall>q. ptys w1 q =
          (if q = pty old \<and> \<not> killFails w q then (ptys w q)\<lparr>killed := True\<rparr>
           else ptys w q)" and
    f: "nextPty w1 = nextPty w" "clock w1 = clock w" "spawnFails w1 = spawnFails w"
    by blast
  from d have gone: "map_of (sessions w1) n = None" by (simp add: delete_conv')
  define new where "new = \<lparr>pty = nextPty w1, created = clock w1, lastActivity = clock w1,
                            subscribers = []\<rparr>"
  define w' where "w' = w1\<lparr>sessions := AList.update n new (sessions w1),
            ptys := (ptys w1)(nextPty w1 :=
                 \<lparr>exitOwner = n, exitOnce = [], dataListeners = [],
                  written = [], resized = [], killed = False\<rparr>),
            nextPty := nextPty w1 + 1\<rparr>"
  from f assms(3) have "\<not> spawnFails w1" by simp
  from createSession_ok [OF idem this] have cr: "createSession n w1 = Inr (new, w')"
    by (simp add: new_def w'_def)
  from assms(1,2) c gone cr have g: "getOrCreateSession username True w = Inr (new, w')"
    by (simp add: getOrCreateSession_def)
  have so: "sockets w' = sockets w1" by (simp add: w'_def)
  have v: "\<forall>ws \<in> set (subscribers old). readyState (sockets w ws) = OPEN \<longrightarrow>
               sent (sockets w' ws) = sent (sockets w ws) @ [ExitFrame 0]
               \<and> readyState (sockets w' ws) = CLOSING"
    using s so by simp
  have k: "\<not> killFails w (pty old) \<longrightarrow> killed (ptys w' (pty old))"
    using p f assms(4) by (simp add: w'_def)
  have m: "map_of (sessions w') n = Some new" by (simp add: w'_def update_conv')
  have l: "length (filter (\<lambda>e. fst e = n) (sessions w')) = 1"
    by (simp add: w'_def d filter_update_delete)
  have n: "pty new = nextPty w" "pty new \<noteq> pty old" "subscribers new = []"
    "\<not> killed (ptys w' (pty new))"
    using f assms(4) by (simp_all add: new_def w'_def)
  have x: "\<forall>ws. sockets w' ws =
               (if ws \<in> set (subscribers old) \<and> readyState (sockets w ws) = OPEN
                then \<lparr>readyState = CLOSING, sent = sent (sockets w ws) @ [ExitFrame 0],
                      closeCalls = closeCalls (sockets w ws) + 1\<rparr>
                else sockets w ws)"
    using s so by simp
  from c gone cr g v x k m l n show ?thesis by blast
qed

lemma connectedWorld_alice:
  "map_of (sessions connectedWorld) ''alice'' =
     Some \<lparr>pty = 0, created = 1000, lastActivity = 1000, subscribers = [0]\<rparr>"
  by (simp add: connectedWorld_def)

section \<open>Exit of the process\<close>

lemma cleanupSession_keeps_listeners:
  assumes "cleanupSession username w = Inr w1"
  shows "exitOwner (ptys w1 p) = exitOwner (ptys w p) \<and> exitOnce (ptys w1 p) = exitOnce (ptys w p)"
proof -
  from assms obtain n where v: "validateAndNormalizeUsername (JStr username) = Inr n"
    by (auto simp: cleanupSession_def split: sum.splits)
  show ?thesis
  proof (cases "map_of (sessions w) n")
    case None
    from cleanupSession_absent [OF v None] assms show ?thesis by simp
  next
    case (Some session)
    from cleanupSession_present [OF v Some] assms show ?thesis by auto
  qed
qed

lemma emitExit_present:
  assumes "validateAndNormalizeUsername (JStr n) = Inr n"
    and "exitOwner (ptys w p) = n"
    and "map_of (sessions w) n = Some session"
  shows "\<exists>w'. emitExit p code w = Inr w'
           \<and> sessions w' = AList.delete n (sessions w)
           \<and> (\<forall>v \<in> set (subscribers session). sockets w' v =
                (if readyState (sockets w v) = OPEN
                 then \<lparr>readyState = CLOSING, sent = sent (sockets w v) @ [ExitFrame 0],
                       closeCalls = closeCalls (sockets w v) + 1\<rparr>
                 else sockets w v))"
proof -
  from cleanupSession_present [OF assms(1,3)] obtain w1 where
    c: "cleanupSession n w = Inr w1" and
    d: "sessions w1 = AList.delete n (sessions w)" and
    s: "\<forall>v. sockets w1 v =
          (if v \<in> set (subscribers session) \<and> readyState (sockets w v) = OPEN
           then \<lparr>readyState = CLOSING, sent = sent (sockets w v) @ [ExitFrame 0],
                 closeCalls = closeCalls (sockets w v) + 1\<rparr>
           else sockets w v)"
    by blast
  from c assms(2) have "emitExit p code w =
      Inr (fold (\<lambda>ws. exitHandler ws code) (exitOnce (ptys w p))
             (w1\<lparr>ptys := (ptys w1)(p := (ptys w1 p)\<lparr>exitOnce := []\<rparr>)\<rparr>))"
    by (simp add: emitExit_after_cleanup)
  with d s show ?thesis by (simp add: fold_exitHandler_sockets)
qed

lemma emitExit_absent:
  assumes "validateAndNormalizeUsername (JStr n) = Inr n"
    and "exitOwner (ptys w p) = n"
    and "map_of (sessions w) n = None"
  shows "\<exists>w'. emitExit p code w = Inr w'
           \<and> sessions w' = sessions w
           \<and> (\<forall>v. readyState (sockets w v) \<noteq> OPEN \<longrightarrow> sockets w' v = sockets w v)"
proof -
  from assms(1,3) have c: "cleanupSession n w = Inr w" by (rule cleanupSession_absent)
  from c assms(2) have "emitExit p code w =
      Inr (fold (\<lambda>ws. exitHandler ws code) (exitOnce (ptys w p))
             (w\<lparr>ptys := (ptys w)(p := (ptys w p)\<lparr>exitOnce := []\<rparr>)\<rparr>))"
    by (simp add: emitExit_after_cleanup)
  then show ?thesis by (simp add: fold_exitHandler_sockets)
qed

text \<open>
  C3, as the code has it. When the process of a registered session exits, the session is
  removed from the registry, and each viewer attached to it receives exactly one exit
  frame if its socket is open and none if it is not. The same holds of the two calls
  together when an explicit \<open>cleanupSession\<close> of the session comes right before the exit
  event or right after it.
\<close>

theorem process_exit_notifies_open_viewers_once:
  assumes "validateAndNormalizeUsername (JStr n) = Inr n"
    and "map_of (sessions w) n = Some session"
    and "pty session = p"
    and "exitOwner (ptys w p) = n"
  shows "(\<exists>w'. emitExit p code w = Inr w' \<and> map_of (sessions w') n = None
            \<and> (\<forall>ws \<in> set (subscribers session).
                  exitCount (sent (sockets w' ws)) =
                    exitCount (sent (sockets w ws))
                      + (if readyState (sockets w ws) = OPEN then 1 else 0)))
       \<and> (\<exists>w1 w2. cleanupSession n w = Inr w1 \<and> emitExit p code w1 = Inr w2
            \<and> map_of (sessions w2) n = None
            \<and> (\<forall>ws \<in> set (subscribers session).
                  exitCount (sent (sockets w2 ws)) =
                    exitCount (sent (sockets w ws))
                      + (if readyState (sockets w ws) = OPEN then 1 else 0)))
       \<and> (\<exists>w1 w2. emitExit p code w = Inr w1 \<and> cleanupSession n w1 = Inr w2
            \<and> map_of (sessions w2) n = None
            \<and> (\<forall>ws \<in> set (subscribers session).
                  exitCount (sent (sockets w2 ws)) =
                    exitCount (sent (sockets w ws))
                      + (if readyState (sockets w ws) = OPEN then 1 else 0)))"
proof -
  from emitExit_present [OF assms(1,4,2), of code] obtain w' where
    e: "emitExit p code w = Inr w'" and
    d: "sessions w' = AList.delete n (sessions w)" and
    s: "\<forall>v \<in> set (subscribers session). sockets w' v =
                (if readyState (sockets w v) = OPEN
                 then \<lparr>readyState = CLOSING, sent = sent (sockets w v) @ [ExitFrame 0],
                       closeCalls = closeCalls (sockets w v) + 1\<rparr>
                 else sockets w v)"
    by blast
  from d have gone: "map_of (sessions w') n = None" by (simp add: delete_conv')
  from s have cnt: "\<forall>ws \<in> set (subscribers session).
                  exitCount (sent (sockets w' ws)) =
                    exitCount (sent (sockets w ws))
                      + (if readyState (sockets w ws) = OPEN then 1 else 0)"
    by simp
  have first: "\<exists>w'. emitExit p code w = Inr w' \<and> map_of (sessions w') n = None
            \<and> (\<forall>ws \<in> set (subscribers session).
                  exitCount (sent (sockets w' ws)) =
                    exitCount (sent (sockets w ws))
                      + (if readyState (sockets w ws) = OPEN then 1 else 0))"
    using e gone cnt by blast
  from assms(1) gone have again: "cleanupSession n w' = Inr w'" by (rule cleanupSession_absent)
  have third: "\<exists>w1 w2. emitExit p code w = Inr w1 \<and> cleanupSession n w1 = Inr w2
            \<and> map_of (sessions w2) n = None
            \<and> (\<forall>ws \<in> set (subscribers session).
                  exitCount (sent (sockets w2 ws)) =
                    exitCount (sent (sockets w ws))
                      + (if readyState (sockets w ws) = OPEN then 1 else 0))"
    using e again gone cnt by blast
  from cleanupSession_present [OF assms(1,2)] obtain w1 where
    c1: "cleanupSession n w = Inr w1" and
    d1: "sessions w1 = AList.delete n (sessions w)" and
    s1: "\<forall>v. sockets w1 v =
          (if v \<in> set (subscribers session) \<and> readyState (sockets w v) = OPEN
           then \<lparr>readyState = CLOSING, sent = sent (sockets w v) @ [ExitFrame 0],
                 closeCalls = closeCalls (sockets w v) + 1\<rparr>
           else sockets w v)"
    by blast
  from d1 have gone1: "map_of (sessions w1) n = None" by (simp add: delete_conv')
  from cleanupSession_keeps_listeners [OF c1] assms(4) have o1: "exitOwner (ptys w1 p) = n"
    by simp
  from emitExit_absent [OF assms(1) o1 gone1, of code] obtain w2 where
    e2: "emitExit p code w1 = Inr w2" and
    d2: "sessions w2 = sessions w1" and
    s2: "\<forall>v. readyState (sockets w1 v) \<noteq> OPEN \<longrightarrow> sockets w2 v = sockets w1 v"
    by blast
  from d2 gone1 have gone2: "map_of (sessions w2) n = None" by simp
  have cnt2: "\<forall>ws \<in> set (subscribers session).
                  exitCount (sent (sockets w2 ws)) =
                    exitCount (sent (sockets w ws))
                      + (if readyState (sockets w ws) = OPEN then 1 else 0)"
  proof
    fix ws assume m: "ws \<in> set (subscribers session)"
    from s1 m have n1: "readyState (sockets w1 ws) \<noteq> OPEN" by simp
    with s2 have "sockets w2 ws = sockets w1 ws" by simp
    with s1 m show "exitCount (sent (sockets w2 ws)) =
                    exitCount (sent (sockets w ws))
                      + (if readyState (sockets w ws) = OPEN then 1 else 0)"
      by simp
  qed
  have second: "\<exists>w1 w2. cleanupSession n w = Inr w1 \<and> emitExit p code w1 = Inr w2
            \<and> map_of (sessions w2) n = None
            \<and> (\<forall>ws \<in> set (subscribers session).
                  exitCount (sent (sockets w2 ws)) =
                    exitCount (sent (sockets w ws))
                      + (if readyState (sockets w ws) = OPEN then 1 else 0))"
    using c1 e2 gone2 cnt2 by blast
  from first second third show ?thesis by blast
qed

theorem process_exit_notifies_open_viewers_once_witness:
  "exitCount (sent (sockets (projr (emitExit 0 3 twoSessions)) 0)) = 1
   \<and> exitCount (sent (sockets (projr (emitExit 0 3 twoSessions)) 1)) = 0
   \<and> map_of (sessions (projr (emitExit 0 3 twoSessions))) ''alice'' = None"
proof -
  have h: "pty \<lparr>pty = 0, created = 1000, lastActivity = 1000, subscribers = [0, 1]\<rparr> = 0"
    "exitOwner (ptys twoSessions 0) = ''alice''"
    by (simp_all add: twoSessions_def)
  have r: "readyState (sockets twoSessions 0) = OPEN" "readyState (sockets twoSessions 1) = CLOSING"
    "sent (sockets twoSessions 0) = []" "sent (sockets twoSessions 1) = []"
    by (simp_all add: twoSessions_def freshSocket_def)
  from process_exit_notifies_open_viewers_once
         [OF validate_alice twoSessions_alice h, of 3, THEN conjunct1]
  obtain w' where e: "emitExit 0 3 twoSessions = Inr w'"
    and g: "map_of (sessions w') ''alice'' = None"
    and c: "\<forall>ws \<in> set [0, 1]. exitCount (sent (sockets w' ws)) =
                    exitCount (sent (sockets twoSessions ws))
                      + (if readyState (sockets twoSessions ws) = OPEN then 1 else 0)"
    by auto
  from c r have "exitCount (sent (sockets w' 0)) = 1" "exitCount (sent (sockets w' 1)) = 0"
    by simp_all
  with e g show ?thesis by simp
qed

text \<open>
  The claim as it is stated gives every attached viewer exactly one exit frame, never
  zero. In \<open>closingWorld\<close> socket 0 is attached to the session of \<^verbatim>\<open>alice\<close> and is closing;
  when the process exits with code 1 the session is removed and socket 0 has received no
  exit frame.
\<close>

theorem process_exit_closing_viewer_gets_none:
  "map_of (sessions closingWorld) ''alice''
     = Some \<lparr>pty = 0, created = 1000, lastActivity = 1000, subscribers = [0]\<rparr>
   \<and> isl (emitExit 0 1 closingWorld) = False
   \<and> map_of (sessions (projr (emitExit 0 1 closingWorld))) ''alice'' = None
   \<and> exitCount (sent (sockets (projr (emitExit 0 1 closingWorld)) 0)) = 0"
  by (simp add: emitExit_def cleanupSession_def validate_alice exitHandler_def
      closingWorld_def connectedWorld_def notifySubscriber_def pty_kill_def
      exitCount_def Let_def)

section \<open>Reusing a session\<close>

lemma getOrCreateSession_existing:
  assumes "validateAndNormalizeUsername (JStr username) = Inr n"
    and "map_of (sessions w) n = Some session"
  shows "getOrCreateSession username False w =
           Inr (session\<lparr>lastActivity := clock w\<rparr>,
                w\<lparr>sessions := AList.update n (session\<lparr>lastActivity := clock w\<rparr>) (sessions w)\<rparr>)"
  using assms by (simp add: getOrCreateSession_def Let_def)

lemma getOrCreateSession_registers:
  assumes "getOrCreateSession username False w = Inr (s1, w1)"
  shows "\<exists>n. validateAndNormalizeUsername (JStr username) = Inr n
            \<and> map_of (sessions w1) n = Some s1"
proof -
  from assms obtain n where v: "validateAndNormalizeUsername (JStr username) = Inr n"
    by (auto simp: getOrCreateSession_def split: sum.splits)
  have idem: "validateAndNormalizeUsername (JStr n) = Inr n" using v by (rule validate_idem)
  have "map_of (sessions w1) n = Some s1"
  proof (cases "map_of (sessions w) n")
    case None
    with assms v have c: "createSession n w = Inr (s1, w1)"
      by (simp add: getOrCreateSession_def)
    then have "\<not> spawnFails w"
      using idem by (auto simp: createSession_def split: sum.splits if_splits)
    from createSession_ok [OF idem this] c show ?thesis by (auto simp: update_conv')
  next
    case (Some session)
    from getOrCreateSession_existing [OF v Some] assms show ?thesis
      by (auto simp: update_conv')
  qed
  with v show ?thesis by blast
qed

section \<open>Messages from a viewer\<close>

text \<open>
  C6, as the code has it. For a message of type \<^verbatim>\<open>input\<close>: data longer than 10000 code
  units is rejected, the handler sends the error frame to the socket the message came from
  and changes nothing else, so nothing is written and the registry is as before; data that
  is a string of 1 to 10000 code units is written to the process unchanged, and nothing
  else changes; a message whose data is the empty string or is absent (or any other falsy
  value) is ignored, with no write and no error; data that is truthy and not a string is
  rejected like data that is too long.
\<close>

theorem onMessage_input:
  assumes "msgType msg = JStr ''input''"
  shows "(\<forall>s. msgData msg = JStr s \<and> length s > 10000 \<longrightarrow>
            onMessage p ws msg w = ws_send ws (ErrorFrame ''Invalid input'') w
            \<and> sent (sockets (onMessage p ws msg w) ws)
                = sent (sockets w ws) @ [ErrorFrame ''Invalid input'']
            \<and> ptys (onMessage p ws msg w) = ptys w
            \<and> sessions (onMessage p ws msg w) = sessions w)
       \<and> (\<forall>s. msgData msg = JStr s \<and> s \<noteq> [] \<and> length s \<le> 10000 \<longrightarrow>
            onMessage p ws msg w = pty_write p s w
            \<and> written (ptys (onMessage p ws msg w) p) = written (ptys w p) @ [s]
            \<and> sockets (onMessage p ws msg w) = sockets w
            \<and> sessions (onMessage p ws msg w) = sessions w)
       \<and> (msgData msg = JStr [] \<or> msgData msg = JUndefined \<or> \<not> truthy (msgData msg) \<longrightarrow>
            onMessage p ws msg w = w)
       \<and> (truthy (msgData msg) \<and> (\<forall>s. msgData msg \<noteq> JStr s) \<longrightarrow>
            onMessage p ws msg w = ws_send ws (ErrorFrame ''Invalid input'') w
            \<and> ptys (onMessage p ws msg w) = ptys w
            \<and> sessions (onMessage p ws msg w) = sessions w)"
  using assms
  by (cases "msgData msg")
     (auto simp: onMessage_def sanitizeTerminalInput_def ws_send_def pty_write_def)

theorem onMessage_input_witness:
  "written (ptys (onMessage 0 0 (inputMessage (JStr ''ls'')) connectedWorld) 0) = [''ls'']
   \<and> sent (sockets (onMessage 0 0 (inputMessage (JStr (replicate 10001 CHR ''a''))) connectedWorld) 0)
       = [ConnectedFrame, ErrorFrame ''Invalid input'']
   \<and> written (ptys (onMessage 0 0 (inputMessage (JStr (replicate 10001 CHR ''a''))) connectedWorld) 0) = []
   \<and> onMessage 0 0 (inputMessage JUndefined) connectedWorld = connectedWorld"
proof -
  have t: "msgType (inputMessage d) = JStr ''input''" for d by (simp add: inputMessage_def)
  have d: "msgData (inputMessage d) = d" for d by (simp add: inputMessage_def)
  have c: "written (ptys connectedWorld 0) = []" "sent (sockets connectedWorld 0) = [ConnectedFrame]"
    by (simp_all add: connectedWorld_def)
  have "written (ptys (onMessage 0 0 (inputMessage (JStr ''ls'')) connectedWorld) 0)
          = written (ptys connectedWorld 0) @ [''ls'']"
    using onMessage_input [OF t, of "JStr ''ls''" 0 0 connectedWorld] d by auto
  moreover have "sent (sockets (onMessage 0 0 (inputMessage (JStr (replicate 10001 CHR ''a''))) connectedWorld) 0)
       = sent (sockets connectedWorld 0) @ [ErrorFrame ''Invalid input'']
     \<and> ptys (onMessage 0 0 (inputMessage (JStr (replicate 10001 CHR ''a''))) connectedWorld)
       = ptys connectedWorld"
    using onMessage_input [OF t, of "JStr (replicate 10001 CHR ''a'')" 0 0 connectedWorld] d
    by auto
  moreover have "onMessage 0 0 (inputMessage JUndefined) connectedWorld = connectedWorld"
    using onMessage_input [OF t, of JUndefined 0 0 connectedWorld] d by auto
  ultimately show ?thesis using c by simp
qed

text \<open>
  The claim as it is stated has every input message that is not too long passed to the
  write operation. The message \<^verbatim>\<open>{type: 'input', data: ''}\<close> is not too long, and
  \<^verbatim>\<open>if (msg.data)\<close> drops it: \<^verbatim>\<open>write\<close> is not called.
\<close>

theorem onMessage_empty_input_not_written:
  "msgType (inputMessage (JStr [])) = JStr ''input''
   \<and> msgData (inputMessage (JStr [])) = JStr []
   \<and> length ([] :: string) \<le> 10000
   \<and> written (ptys (onMessage 0 0 (inputMessage (JStr [])) connectedWorld) 0)
        \<noteq> written (ptys connectedWorld 0) @ [[]]
   \<and> written (ptys (onMessage 0 0 (inputMessage (JStr [])) connectedWorld) 0) = []"
  by (simp add: onMessage_def inputMessage_def connectedWorld_def)

text \<open>
  C7. For a message of type \<^verbatim>\<open>resize\<close> the handler calls \<^verbatim>\<open>resize\<close> on the process, with
  the columns and rows of the message, exactly when both are integers between 1 and 1000;
  otherwise the calls of \<^verbatim>\<open>resize\<close> are as before. In both cases the sockets (so the
  connection) and the registry (so the session) are unchanged, and so is every other
  process.
\<close>

theorem onMessage_resize:
  assumes "msgType msg = JStr ''resize''"
  shows "resized (ptys (onMessage p ws msg w) p) =
           (if integerInRange (msgCols msg) \<and> integerInRange (msgRows msg)
            then resized (ptys w p) @ [(msgCols msg, msgRows msg)]
            else resized (ptys w p))
       \<and> sockets (onMessage p ws msg w) = sockets w
       \<and> sessions (onMessage p ws msg w) = sessions w
       \<and> (\<forall>q. q \<noteq> p \<longrightarrow> ptys (onMessage p ws msg w) q = ptys w q)
       \<and> written (ptys (onMessage p ws msg w) p) = written (ptys w p)
       \<and> killed (ptys (onMessage p ws msg w) p) = killed (ptys w p)"
proof -
  have u: "(isInteger c \<and> \<not> numLess c 1 \<and> \<not> numGreater c 1000) \<longleftrightarrow> integerInRange c" for c
    by (cases c) (auto simp: integerInRange_def not_less Ints_def)
  have v: "validateTerminalDimensions c r = Inr () \<longleftrightarrow> integerInRange c \<and> integerInRange r"
    for c r
    using u [of c] u [of r] by (auto simp: validateTerminalDimensions_def)
  have tr: "integerInRange c \<Longrightarrow> truthy c" for c
    by (cases c) (auto simp: integerInRange_def)
  show ?thesis
    using assms v [of "msgCols msg" "msgRows msg"] tr [of "msgCols msg"] tr [of "msgRows msg"]
    by (auto simp: onMessage_def pty_resize_def split: sum.splits)
qed

theorem onMessage_resize_witness:
  "resized (ptys (onMessage 0 0 (resizeMessage (JNum 120) (JNum 40)) connectedWorld) 0)
     = [(JNum 120, JNum 40)]
   \<and> resized (ptys (onMessage 0 0 (resizeMessage (JNum 1001) (JNum 40)) connectedWorld) 0) = []
   \<and> resized (ptys (onMessage 0 0 (resizeMessage (JNum (3/2)) (JNum 40)) connectedWorld) 0) = []
   \<and> resized (ptys (onMessage 0 0 (resizeMessage (JNum 0) (JNum 40)) connectedWorld) 0) = []"
proof -
  have t: "msgType (resizeMessage c r) = JStr ''resize''" for c r by (simp add: resizeMessage_def)
  have d: "msgCols (resizeMessage c r) = c" "msgRows (resizeMessage c r) = r" for c r
    by (simp_all add: resizeMessage_def)
  have c: "resized (ptys connectedWorld 0) = []" by (simp add: connectedWorld_def)
  have i: "integerInRange (JNum 120)" "integerInRange (JNum 40)" "\<not> integerInRange (JNum 1001)"
    "\<not> integerInRange (JNum (3/2))" "\<not> integerInRange (JNum 0)"
    by (simp_all add: integerInRange_def)
  note o = onMessage_resize [THEN conjunct1]
  from o [of "resizeMessage (JNum 120) (JNum 40)" 0 0 connectedWorld]
    o [of "resizeMessage (JNum 1001) (JNum 40)" 0 0 connectedWorld]
    o [of "resizeMessage (JNum (3/2)) (JNum 40)" 0 0 connectedWorld]
    o [of "resizeMessage (JNum 0) (JNum 40)" 0 0 connectedWorld] t d c i
  show ?thesis by simp
qed

section \<open>The idle sweep\<close>

lemma map_of_None_filter:
  "map_of al k = None \<Longrightarrow> filter (\<lambda>e. fst e \<noteq> k) al = al"
  by (induction al) (auto split: if_splits)

lemma inactiveKey_delete:
  assumes "sessions w1 = AList.delete k (sessions w)" and "k' \<noteq> k"
  shows "inactiveKey now t w1 k' = inactiveKey now t w k'"
  using assms by (simp add: inactiveKey_def)

lemma sweepInactive_result:
  assumes "distinct ks"
    and "\<forall>k \<in> set ks. validateAndNormalizeUsername (JStr k) = Inr k"
  shows "\<exists>w'. sweepInactive ks now t c w =
                 Inr (c + length (filter (inactiveKey now t w) ks), w')
           \<and> sessions w' =
                filter (\<lambda>e. \<not> (fst e \<in> set ks \<and> inactiveKey now t w (fst e))) (sessions w)
           \<and> sockets w' = sockets w
           \<and> killFails w' = killFails w
           \<and> (\<forall>q. killed (ptys w q) \<longrightarrow> killed (ptys w' q))
           \<and> (\<forall>k \<in> set ks. \<forall>s. map_of (sessions w) k = Some s \<and> inactive now t s
                  \<and> \<not> killFails w (pty s) \<longrightarrow> killed (ptys w' (pty s)))"
  using assms
proof (induction ks arbitrary: c w)
  case Nil
  show ?case by simp
next
  case (Cons k rest)
  from Cons.prems have dr: "distinct rest" and kr: "k \<notin> set rest"
    and vr: "\<forall>k \<in> set rest. validateAndNormalizeUsername (JStr k) = Inr k"
    and vk: "validateAndNormalizeUsername (JStr k) = Inr k"
    by simp_all
  show ?case
  proof (cases "map_of (sessions w) k")
    case None
    then have nk: "\<not> inactiveKey now t w k" by (simp add: inactiveKey_def)
    from None have nf: "\<forall>e \<in> set (sessions w). fst e \<noteq> k"
      by (metis map_of_eq_None_iff image_eqI)
    from Cons.IH [OF dr vr, of c w] obtain w' where
      r: "sweepInactive rest now t c w = Inr (c + length (filter (inactiveKey now t w) rest), w')"
      and s: "sessions w' =
                filter (\<lambda>e. \<not> (fst e \<in> set rest \<and> inactiveKey now t w (fst e))) (sessions w)"
      and o: "sockets w' = sockets w" "killFails w' = killFails w"
        "\<forall>q. killed (ptys w q) \<longrightarrow> killed (ptys w' q)"
        "\<forall>k \<in> set rest. \<forall>s. map_of (sessions w) k = Some s \<and> inactive now t s
                  \<and> \<not> killFails w (pty s) \<longrightarrow> killed (ptys w' (pty s))"
      by blast
    have s': "sessions w' =
        filter (\<lambda>e. \<not> (fst e \<in> set (k # rest) \<and> inactiveKey now t w (fst e))) (sessions w)"
      using s nk by (auto intro: filter_cong)
    from None r nk have "sweepInactive (k # rest) now t c w =
        Inr (c + length (filter (inactiveKey now t w) (k # rest)), w')"
      by simp
    with s' o None show ?thesis by auto
  next
    case (Some session)
    show ?thesis
    proof (cases "inactive now t session")
      case False
      with Some have nk: "\<not> inactiveKey now t w k" by (simp add: inactiveKey_def)
      from Cons.IH [OF dr vr, of c w] obtain w' where
        r: "sweepInactive rest now t c w = Inr (c + length (filter (inactiveKey now t w) rest), w')"
        and s: "sessions w' =
                filter (\<lambda>e. \<not> (fst e \<in> set rest \<and> inactiveKey now t w (fst e))) (sessions w)"
        and o: "sockets w' = sockets w" "killFails w' = killFails w"
          "\<forall>q. killed (ptys w q) \<longrightarrow> killed (ptys w' q)"
          "\<forall>k \<in> set rest. \<forall>s. map_of (sessions w) k = Some s \<and> inactive now t s
                  \<and> \<not> killFails w (pty s) \<longrightarrow> killed (ptys w' (pty s))"
        by blast
      have s': "sessions w' =
          filter (\<lambda>e. \<not> (fst e \<in> set (k # rest) \<and> inactiveKey now t w (fst e))) (sessions w)"
        using s nk by (auto intro: filter_cong)
      from Some False r nk have "sweepInactive (k # rest) now t c w =
          Inr (c + length (filter (inactiveKey now t w) (k # rest)), w')"
        by simp
      with s' o Some False show ?thesis by auto
    next
      case True
      with Some have ik: "inactiveKey now t w k" by (simp add: inactiveKey_def)
      from True have ns: "subscribers session = []" by (simp add: inactive_def)
      from cleanupSession_present [OF vk Some] ns obtain w1 where
        c1: "cleanupSession k w = Inr w1" and
        d1: "sessions w1 = AList.delete k (sessions w)" and
        s1: "\<forall>v. sockets w1 v = sockets w v" and
        p1: "\<forall>q. ptys w1 q =
                (if q = pty session \<and> \<not> killFails w q then (ptys w q)\<lparr>killed := True\<rparr>
                 else ptys w q)" and
        f1: "killFails w1 = killFails w"
        by auto
      from s1 have so1: "sockets w1 = sockets w" by (intro ext) simp
      have same: "inactiveKey now t w1 k' = inactiveKey now t w k'" if "k' \<in> set rest" for k'
      proof -
        from that kr have "k' \<noteq> k" by auto
        with d1 show ?thesis by (rule inactiveKey_delete)
      qed
      have mo: "map_of (sessions w1) k' = map_of (sessions w) k'" if "k' \<in> set rest" for k'
      proof -
        from that kr have "k' \<noteq> k" by auto
        with d1 show ?thesis by simp
      qed
      from Cons.IH [OF dr vr, of "c + 1" w1] obtain w' where
        r: "sweepInactive rest now t (c + 1) w1 =
              Inr (c + 1 + length (filter (inactiveKey now t w1) rest), w')"
        and s: "sessions w' =
                filter (\<lambda>e. \<not> (fst e \<in> set rest \<and> inactiveKey now t w1 (fst e))) (sessions w1)"
        and o: "sockets w' = sockets w1" "killFails w' = killFails w1"
          "\<forall>q. killed (ptys w1 q) \<longrightarrow> killed (ptys w' q)"
          "\<forall>k \<in> set rest. \<forall>s. map_of (sessions w1) k = Some s \<and> inactive now t s
                  \<and> \<not> killFails w1 (pty s) \<longrightarrow> killed (ptys w' (pty s))"
        by blast
      have cnt: "length (filter (inactiveKey now t w1) rest) = length (filter (inactiveKey now t w) rest)"
        using same by (metis (mono_tags, lifting) filter_cong)
      from Some True c1 r cnt ik have run: "sweepInactive (k # rest) now t c w =
          Inr (c + length (filter (inactiveKey now t w) (k # rest)), w')"
        by simp
      have s': "sessions w' =
          filter (\<lambda>e. \<not> (fst e \<in> set (k # rest) \<and> inactiveKey now t w (fst e))) (sessions w)"
        unfolding s d1 AList.delete_eq using same ik
        by (auto simp: case_prod_unfold intro!: filter_cong)
      have mono: "\<forall>q. killed (ptys w q) \<longrightarrow> killed (ptys w' q)"
        using p1 o(3) by auto
      have kk: "\<forall>k' \<in> set (k # rest). \<forall>s. map_of (sessions w) k' = Some s \<and> inactive now t s
                  \<and> \<not> killFails w (pty s) \<longrightarrow> killed (ptys w' (pty s))"
      proof (intro ballI allI impI)
        fix k' s
        assume m: "k' \<in> set (k # rest)"
          and a: "map_of (sessions w) k' = Some s \<and> inactive now t s \<and> \<not> killFails w (pty s)"
        show "killed (ptys w' (pty s))"
        proof (cases "k' = k")
          case True
          with a Some have "s = session" by simp
          with a p1 have "killed (ptys w1 (pty s))" by simp
          with o(3) show ?thesis by simp
        next
          case False
          with m have "k' \<in> set rest" by simp
          with a mo f1 o(4) show ?thesis by auto
        qed
      qed
      from run s' o(1,2) so1 f1 mono kk show ?thesis by auto
    qed
  qed
qed





section \<open>Subscriber lists\<close>

lemma set_update_subset: "set (AList.update k v al) \<subseteq> insert (k, v) (set al)"
  by (induction al) auto

lemma set_delete_subset: "set (AList.delete k al) \<subseteq> set al"
  by (induction al) auto

lemma noDuplicateSubscribers_iff:
  "noDuplicateSubscribers w \<longleftrightarrow> (\<forall>e \<in> set (sessions w). distinct (subscribers (snd e)))"
  by (simp add: noDuplicateSubscribers_def list_all_iff)

lemma noDup_subset:
  assumes "noDuplicateSubscribers w" and "set (sessions w') \<subseteq> set (sessions w)"
  shows "noDuplicateSubscribers w'"
  using assms by (auto simp: noDuplicateSubscribers_iff)

lemma noDup_update:
  assumes "noDuplicateSubscribers w" and "distinct (subscribers s)"
    and "sessions w' = AList.update k s (sessions w)"
  shows "noDuplicateSubscribers w'"
proof -
  have "set (sessions w') \<subseteq> insert (k, s) (set (sessions w))"
    using assms(3) set_update_subset by metis
  with assms(1,2) show ?thesis by (auto simp: noDuplicateSubscribers_iff)
qed

lemma noDup_lookup:
  assumes "noDuplicateSubscribers w" and "map_of (sessions w) k = Some s"
  shows "distinct (subscribers s)"
  using assms map_of_SomeD [OF assms(2)] by (auto simp: noDuplicateSubscribers_iff)

lemma cleanupSession_sessions:
  assumes "cleanupSession username w = Inr w'"
  shows "sessions w' = sessions w \<or> (\<exists>n. validateAndNormalizeUsername (JStr username) = Inr n
            \<and> sessions w' = AList.delete n (sessions w))"
proof -
  from assms obtain n where v: "validateAndNormalizeUsername (JStr username) = Inr n"
    by (auto simp: cleanupSession_def split: sum.splits)
  show ?thesis
  proof (cases "map_of (sessions w) n")
    case None
    from cleanupSession_absent [OF v None] assms show ?thesis by simp
  next
    case (Some session)
    from cleanupSession_present [OF v Some] assms v show ?thesis by auto
  qed
qed

lemma cleanupSession_noDup:
  assumes "cleanupSession username w = Inr w'" and "noDuplicateSubscribers w"
  shows "noDuplicateSubscribers w'"
proof -
  from cleanupSession_sessions [OF assms(1)] have "set (sessions w') \<subseteq> set (sessions w)"
    using set_delete_subset by fastforce
  with assms(2) show ?thesis by (rule noDup_subset)
qed

lemma createSession_sessions:
  assumes "createSession username w = Inr (s, w')"
  shows "\<exists>n. validateAndNormalizeUsername (JStr n) = Inr n
            \<and> sessions w' = AList.update n s (sessions w) \<and> subscribers s = []"
proof -
  from assms obtain n where v: "validateAndNormalizeUsername (JStr username) = Inr n"
    by (auto simp: createSession_def split: sum.splits)
  from assms v have ns: "\<not> spawnFails w"
    by (auto simp: createSession_def split: sum.splits if_splits)
  from createSession_ok [OF v ns] assms validate_idem [OF v] show ?thesis by auto
qed

lemma createSession_noDup:
  assumes "createSession username w = Inr (s, w')" and "noDuplicateSubscribers w"
  shows "noDuplicateSubscribers w'"
proof -
  from createSession_sessions [OF assms(1)] obtain n where
    e: "sessions w' = AList.update n s (sessions w)" and "subscribers s = []" by blast
  then have "distinct (subscribers s)" by simp
  with assms(2) show ?thesis using e by (rule noDup_update)
qed

lemma getOrCreateSession_noDup:
  assumes "getOrCreateSession username forceNew w = Inr (s, w')" and "noDuplicateSubscribers w"
  shows "noDuplicateSubscribers w'"
proof -
  from assms(1) obtain n where v: "validateAndNormalizeUsername (JStr username) = Inr n"
    by (auto simp: getOrCreateSession_def split: sum.splits)
  from assms(1) v obtain w1 where
    c: "(if forceNew \<and> map_of (sessions w) n \<noteq> None then cleanupSession n w else Inr w) = Inr w1"
    by (auto simp: getOrCreateSession_def split: sum.splits)
  have i1: "noDuplicateSubscribers w1"
  proof (cases "forceNew \<and> map_of (sessions w) n \<noteq> None")
    case True
    with c have "cleanupSession n w = Inr w1" by simp
    then show ?thesis using assms(2) by (rule cleanupSession_noDup)
  next
    case False
    with c assms(2) show ?thesis by auto
  qed
  show ?thesis
  proof (cases "map_of (sessions w1) n")
    case None
    with assms(1) v c have "createSession n w1 = Inr (s, w')"
      by (simp add: getOrCreateSession_def)
    then show ?thesis using i1 by (rule createSession_noDup)
  next
    case (Some session)
    with assms(1) v c have e: "sessions w' =
        AList.update n (session\<lparr>lastActivity := clock w1\<rparr>) (sessions w1)"
      by (auto simp: getOrCreateSession_def Let_def)
    from noDup_lookup [OF i1 Some] have "distinct (subscribers (session\<lparr>lastActivity := clock w1\<rparr>))"
      by simp
    with i1 show ?thesis using e by (rule noDup_update)
  qed
qed

lemma attachToSession_noDup:
  assumes "attachToSession username ws w = Inr w'" and "noDuplicateSubscribers w"
  shows "noDuplicateSubscribers w'"
proof -
  from assms(1) obtain n where v: "validateAndNormalizeUsername (JStr username) = Inr n"
    by (auto simp: attachToSession_def split: sum.splits)
  show ?thesis
  proof (cases "map_of (sessions w) n")
    case None
    with assms v show ?thesis by (simp add: attachToSession_def)
  next
    case (Some session)
    show ?thesis
    proof (cases "ws \<in> set (subscribers session)")
      case True
      with assms v Some show ?thesis by (simp add: attachToSession_def)
    next
      case False
      with assms(1) v Some have e: "sessions w' = AList.update n
          (session\<lparr>subscribers := subscribers session @ [ws], lastActivity := clock w\<rparr>) (sessions w)"
        by (auto simp: attachToSession_def)
      from noDup_lookup [OF assms(2) Some] False
      have "distinct (subscribers (session\<lparr>subscribers := subscribers session @ [ws],
                                             lastActivity := clock w\<rparr>))"
        by simp
      with assms(2) show ?thesis using e by (rule noDup_update)
    qed
  qed
qed

lemma detachFromSession_noDup:
  assumes "detachFromSession username ws w = Inr w'" and "noDuplicateSubscribers w"
  shows "noDuplicateSubscribers w'"
proof -
  from assms(1) obtain n where v: "validateAndNormalizeUsername (JStr username) = Inr n"
    by (auto simp: detachFromSession_def split: sum.splits)
  show ?thesis
  proof (cases "map_of (sessions w) n")
    case None
    with assms v show ?thesis by (simp add: detachFromSession_def)
  next
    case (Some session)
    show ?thesis
    proof (cases "ws \<in> set (subscribers session)")
      case False
      with assms v Some show ?thesis by (simp add: detachFromSession_def)
    next
      case True
      with assms(1) v Some have e: "sessions w' = AList.update n
          (session\<lparr>subscribers := remove1 ws (subscribers session)\<rparr>) (sessions w)"
        by (auto simp: detachFromSession_def)
      from noDup_lookup [OF assms(2) Some]
      have "distinct (subscribers (session\<lparr>subscribers := remove1 ws (subscribers session)\<rparr>))"
        by simp
      with assms(2) show ?thesis using e by (rule noDup_update)
    qed
  qed
qed

lemma sweepInactive_preserves:
  assumes step: "\<And>u w w'. cleanupSession u w = Inr w' \<Longrightarrow> P w \<Longrightarrow> P w'"
    and "sweepInactive ks now t c w = Inr (n, w')" and "P w"
  shows "P w'"
  using assms(2,3)
proof (induction ks arbitrary: c w)
  case Nil
  then show ?case by simp
next
  case (Cons k rest)
  show ?case
  proof (cases "map_of (sessions w) k")
    case None
    with Cons.prems(1) have "sweepInactive rest now t c w = Inr (n, w')" by simp
    then show ?thesis using Cons.prems(2) by (rule Cons.IH)
  next
    case (Some session)
    show ?thesis
    proof (cases "inactive now t session")
      case False
      with Some Cons.prems(1) have "sweepInactive rest now t c w = Inr (n, w')" by simp
      then show ?thesis using Cons.prems(2) by (rule Cons.IH)
    next
      case True
      with Some Cons.prems(1) obtain w1 where c1: "cleanupSession k w = Inr w1"
        and r: "sweepInactive rest now t (c + 1) w1 = Inr (n, w')"
        by (auto split: sum.splits)
      from step [OF c1 Cons.prems(2)] have "P w1" .
      with r show ?thesis by (rule Cons.IH)
    qed
  qed
qed

lemma shutdownLoop_preserves:
  assumes step: "\<And>u w w'. cleanupSession u w = Inr w' \<Longrightarrow> P w \<Longrightarrow> P w'"
    and "shutdownLoop ks w = Inr w'" and "P w"
  shows "P w'"
  using assms(2,3)
proof (induction ks arbitrary: w)
  case Nil
  then show ?case by simp
next
  case (Cons k rest)
  show ?case
  proof (cases "map_of (sessions w) k")
    case None
    with Cons.prems(1) have "shutdownLoop rest w = Inr w'" by simp
    then show ?thesis using Cons.prems(2) by (rule Cons.IH)
  next
    case (Some session)
    with Cons.prems(1) obtain w1 where c1: "cleanupSession k w = Inr w1"
      and r: "shutdownLoop rest w1 = Inr w'"
      by (auto split: sum.splits)
    from step [OF c1 Cons.prems(2)] have "P w1" .
    with r show ?thesis by (rule Cons.IH)
  qed
qed

lemma noDup_same_sessions:
  "sessions w' = sessions w \<Longrightarrow> noDuplicateSubscribers w \<Longrightarrow> noDuplicateSubscribers w'"
  by (simp add: noDuplicateSubscribers_def)

lemma onConnection_noDup:
  assumes "onConnection username ws w = Inr w'" and "noDuplicateSubscribers w"
  shows "noDuplicateSubscribers w'"
proof -
  from assms(1) obtain s w1 w2 where g: "getOrCreateSession username True w = Inr (s, w1)"
    and a: "attachToSession username ws w1 = Inr w2" and e: "sessions w' = sessions w2"
    by (auto simp: onConnection_def Let_def ws_send_def split: sum.splits prod.splits)
  from getOrCreateSession_noDup [OF g assms(2)] have "noDuplicateSubscribers w1" .
  with a have "noDuplicateSubscribers w2" by (rule attachToSession_noDup)
  with e show ?thesis by (rule noDup_same_sessions)
qed

lemma onClose_noDup:
  assumes "onClose username p ws w = Inr w'" and "noDuplicateSubscribers w"
  shows "noDuplicateSubscribers w'"
proof -
  let ?w0 = "w\<lparr>ptys := (ptys w)(p := (ptys w p)
            \<lparr>dataListeners := remove1 ws (dataListeners (ptys w p))\<rparr>)\<rparr>"
  from assms(1) have d: "detachFromSession username ws ?w0 = Inr w'" by (simp add: onClose_def)
  have "noDuplicateSubscribers ?w0" using assms(2) by (simp add: noDuplicateSubscribers_def)
  with d show ?thesis by (rule detachFromSession_noDup)
qed

lemma emitExit_noDup:
  assumes "emitExit p code w = Inr w'" and "noDuplicateSubscribers w"
  shows "noDuplicateSubscribers w'"
proof -
  from assms(1) obtain w1 where c: "cleanupSession (exitOwner (ptys w p)) w = Inr w1"
    and e: "sessions w' = sessions w1"
    by (auto simp: emitExit_def split: sum.splits)
  from cleanupSession_noDup [OF c assms(2)] have "noDuplicateSubscribers w1" .
  with e show ?thesis by (rule noDup_same_sessions)
qed

lemma count_list_distinct:
  "distinct xs \<Longrightarrow> count_list xs x = (if x \<in> set xs then 1 else 0)"
  by (induction xs) auto


lemma attachToSession_twice:
  assumes "validateAndNormalizeUsername (JStr username) = Inr n"
    and "map_of (sessions w) n = Some session"
  shows "\<exists>w1 w2 s2. attachToSession username ws w = Inr w1
           \<and> attachToSession username ws w1 = Inr w2
           \<and> map_of (sessions w2) n = Some s2
           \<and> subscribers s2 = (if ws \<in> set (subscribers session) then subscribers session
                                else subscribers session @ [ws])"
proof (cases "ws \<in> set (subscribers session)")
  case True
  with assms have "attachToSession username ws w = Inr w" by (simp add: attachToSession_def)
  with assms(2) True show ?thesis by auto
next
  case False
  let ?s = "session\<lparr>subscribers := subscribers session @ [ws], lastActivity := clock w\<rparr>"
  let ?w1 = "w\<lparr>sessions := AList.update n ?s (sessions w)\<rparr>"
  from False assms have a1: "attachToSession username ws w = Inr ?w1"
    by (simp add: attachToSession_def)
  have m: "map_of (sessions ?w1) n = Some ?s" by (simp add: update_conv')
  have "ws \<in> set (subscribers ?s)" by simp
  with assms(1) m have a2: "attachToSession username ws ?w1 = Inr ?w1"
    by (simp add: attachToSession_def)
  from a1 a2 m False show ?thesis by auto
qed

text \<open>
  C9. The registry of a new manager has no session whose subscriber list repeats a
  viewer, and every operation on the registry that returns keeps it so. Attaching one
  viewer twice to a registered session whose list has no repetition leaves the list with
  exactly one entry for that viewer: the list as it was when the viewer was already in it,
  and the list with the viewer added once at the end otherwise.
\<close>

theorem no_duplicate_subscribers:
  "noDuplicateSubscribers (newManager w0)
   \<and> (noDuplicateSubscribers w \<and> perform opn w = Inr w' \<longrightarrow> noDuplicateSubscribers w')
   \<and> (validateAndNormalizeUsername (JStr username) = Inr n
        \<and> map_of (sessions w) n = Some session \<and> distinct (subscribers session) \<longrightarrow>
        (\<exists>w1 w2 s2. attachToSession username ws w = Inr w1
           \<and> attachToSession username ws w1 = Inr w2
           \<and> map_of (sessions w2) n = Some s2
           \<and> subscribers s2 = (if ws \<in> set (subscribers session) then subscribers session
                                else subscribers session @ [ws])
           \<and> count_list (subscribers s2) ws = 1))"
proof (intro conjI impI)
  show "noDuplicateSubscribers (newManager w0)"
    by (simp add: noDuplicateSubscribers_def newManager_def)
next
  assume a: "noDuplicateSubscribers w \<and> perform opn w = Inr w'"
  then have i: "noDuplicateSubscribers w" and p: "perform opn w = Inr w'" by simp_all
  show "noDuplicateSubscribers w'"
  proof (cases opn)
    case (GetOrCreateSession u f)
    with p obtain s where "getOrCreateSession u f w = Inr (s, w')"
      by (cases "getOrCreateSession u f w") auto
    then show ?thesis using i by (rule getOrCreateSession_noDup)
  next
    case (CreateSession u)
    with p obtain s where "createSession u w = Inr (s, w')"
      by (cases "createSession u w") auto
    then show ?thesis using i by (rule createSession_noDup)
  next
    case (AttachToSession u v)
    with p have "attachToSession u v w = Inr w'" by simp
    then show ?thesis using i by (rule attachToSession_noDup)
  next
    case (DetachFromSession u v)
    with p have "detachFromSession u v w = Inr w'" by simp
    then show ?thesis using i by (rule detachFromSession_noDup)
  next
    case (CleanupSession u)
    with p have "cleanupSession u w = Inr w'" by simp
    then show ?thesis using i by (rule cleanupSession_noDup)
  next
    case (CleanupInactiveSessions t)
    with p obtain c where "cleanupInactiveSessions t w = Inr (c, w')"
      by (cases "cleanupInactiveSessions t w") auto
    then have "sweepInactive (map fst (sessions w)) (clock w) t 0 w = Inr (c, w')"
      by (simp add: cleanupInactiveSessions_def)
    with cleanupSession_noDup show ?thesis using i by (rule sweepInactive_preserves)
  next
    case ShutdownAll
    with p have "shutdownLoop (map fst (sessions w)) w = Inr w'" by (simp add: shutdownAll_def)
    with cleanupSession_noDup show ?thesis using i by (rule shutdownLoop_preserves)
  next
    case (OnConnection u v)
    with p have "onConnection u v w = Inr w'" by simp
    then show ?thesis using i by (rule onConnection_noDup)
  next
    case (OnClose u q v)
    with p have "onClose u q v w = Inr w'" by simp
    then show ?thesis using i by (rule onClose_noDup)
  next
    case (EmitExit q c)
    with p have "emitExit q c w = Inr w'" by simp
    then show ?thesis using i by (rule emitExit_noDup)
  qed
next
  assume a: "validateAndNormalizeUsername (JStr username) = Inr n
        \<and> map_of (sessions w) n = Some session \<and> distinct (subscribers session)"
  then have v: "validateAndNormalizeUsername (JStr username) = Inr n"
    and m: "map_of (sessions w) n = Some session" and d: "distinct (subscribers session)"
    by simp_all
  from attachToSession_twice [OF v m, of ws] obtain w1 w2 s2 where
    t: "attachToSession username ws w = Inr w1" "attachToSession username ws w1 = Inr w2"
      "map_of (sessions w2) n = Some s2"
      "subscribers s2 = (if ws \<in> set (subscribers session) then subscribers session
                                else subscribers session @ [ws])"
    by blast
  from t(4) d have "count_list (subscribers s2) ws = 1"
    by (simp add: count_list_distinct)
  with t show "\<exists>w1 w2 s2. attachToSession username ws w = Inr w1
           \<and> attachToSession username ws w1 = Inr w2
           \<and> map_of (sessions w2) n = Some s2
           \<and> subscribers s2 = (if ws \<in> set (subscribers session) then subscribers session
                                else subscribers session @ [ws])
           \<and> count_list (subscribers s2) ws = 1"
    by blast
qed

theorem no_duplicate_subscribers_witness:
  "noDuplicateSubscribers connectedWorld
   \<and> perform (AttachToSession ''alice'' 5) connectedWorld
       = Inr (projr (attachToSession ''alice'' 5 connectedWorld))
   \<and> noDuplicateSubscribers (projr (attachToSession ''alice'' 5 connectedWorld))
   \<and> subscribers (the (map_of (sessions (projr (attachToSession ''alice'' 5
        (projr (attachToSession ''alice'' 5 connectedWorld))))) ''alice'')) = [0, 5]
   \<and> count_list (subscribers (the (map_of (sessions (projr (attachToSession ''alice'' 5
        (projr (attachToSession ''alice'' 5 connectedWorld))))) ''alice''))) 5 = 1"
proof -
  have i: "noDuplicateSubscribers connectedWorld"
    by (simp add: noDuplicateSubscribers_def connectedWorld_def)
  have r: "isl (attachToSession ''alice'' 5 connectedWorld) = False"
    by (simp add: attachToSession_def validate_alice connectedWorld_def)
  then have p: "perform (AttachToSession ''alice'' 5) connectedWorld
       = Inr (projr (attachToSession ''alice'' 5 connectedWorld))"
    by (cases "attachToSession ''alice'' 5 connectedWorld") simp_all
  note t = no_duplicate_subscribers
    [of connectedWorld connectedWorld "AttachToSession ''alice'' 5"
        "projr (attachToSession ''alice'' 5 connectedWorld)" "''alice''" "''alice''"
        "\<lparr>pty = 0, created = 1000, lastActivity = 1000, subscribers = [0]\<rparr>" 5]
  from t i p have i': "noDuplicateSubscribers (projr (attachToSession ''alice'' 5 connectedWorld))"
    by blast
  from t validate_alice connectedWorld_alice obtain w1 w2 s2 where
    a: "attachToSession ''alice'' 5 connectedWorld = Inr w1"
      "attachToSession ''alice'' 5 w1 = Inr w2"
      "map_of (sessions w2) ''alice'' = Some s2"
      "subscribers s2 = [0, 5]" "count_list (subscribers s2) 5 = 1"
    by auto
  from i p i' a show ?thesis by simp
qed

section \<open>Reachable states\<close>

lemma onConnection_emptyWorld: "onConnection ''alice'' 0 emptyWorld = Inr connectedWorld"
  by (simp add: onConnection_def getOrCreateSession_def createSession_def attachToSession_def
      validate_alice path_alice emptyWorld_def connectedWorld_def ws_send_def freshSocket_def
      noProcess_def Let_def)

text \<open>
  The two hypotheses on the state that the theorems here make, \<open>keysNormalized\<close> and (as
  \<open>pty old < nextPty w\<close>) \<open>ptysAllocated\<close>, hold of a new manager and are kept by every
  operation that returns.
\<close>

lemma keysNormalized_delete:
  assumes "keysNormalized w" and "sessions w' = AList.delete k (sessions w)"
  shows "keysNormalized w'"
  using assms
  by (auto simp: keysNormalized_def list_all_iff delete_keys distinct_removeAll)

lemma keysNormalized_update:
  assumes "keysNormalized w" and "sessions w' = AList.update k s (sessions w)"
    and "validateAndNormalizeUsername (JStr k) = Inr k"
  shows "keysNormalized w'"
  using assms
  by (auto simp: keysNormalized_def list_all_iff update_keys)

lemma keysNormalized_same:
  "sessions w' = sessions w \<Longrightarrow> keysNormalized w \<Longrightarrow> keysNormalized w'"
  by (simp add: keysNormalized_def)

lemma cleanupSession_keysNormalized:
  assumes "cleanupSession username w = Inr w'" and "keysNormalized w"
  shows "keysNormalized w'"
  using cleanupSession_sessions [OF assms(1)] assms(2)
  by (auto intro: keysNormalized_delete keysNormalized_same)

lemma createSession_keysNormalized:
  assumes "createSession username w = Inr (s, w')" and "keysNormalized w"
  shows "keysNormalized w'"
proof -
  from createSession_sessions [OF assms(1)] obtain n where
    v: "validateAndNormalizeUsername (JStr n) = Inr n"
    and e: "sessions w' = AList.update n s (sessions w)"
    by blast
  from assms(2) e v show ?thesis by (rule keysNormalized_update)
qed

lemma getOrCreateSession_keysNormalized:
  assumes "getOrCreateSession username forceNew w = Inr (s, w')" and "keysNormalized w"
  shows "keysNormalized w'"
proof -
  from assms(1) obtain n where v: "validateAndNormalizeUsername (JStr username) = Inr n"
    by (auto simp: getOrCreateSession_def split: sum.splits)
  from assms(1) v obtain w1 where
    c: "(if forceNew \<and> map_of (sessions w) n \<noteq> None then cleanupSession n w else Inr w) = Inr w1"
    by (auto simp: getOrCreateSession_def split: sum.splits)
  have i1: "keysNormalized w1"
  proof (cases "forceNew \<and> map_of (sessions w) n \<noteq> None")
    case True
    with c have "cleanupSession n w = Inr w1" by simp
    then show ?thesis using assms(2) by (rule cleanupSession_keysNormalized)
  next
    case False
    with c assms(2) show ?thesis by auto
  qed
  show ?thesis
  proof (cases "map_of (sessions w1) n")
    case None
    with assms(1) v c have "createSession n w1 = Inr (s, w')"
      by (simp add: getOrCreateSession_def)
    then show ?thesis using i1 by (rule createSession_keysNormalized)
  next
    case (Some session)
    with assms(1) v c have e: "sessions w' =
        AList.update n (session\<lparr>lastActivity := clock w1\<rparr>) (sessions w1)"
      by (auto simp: getOrCreateSession_def Let_def)
    from i1 e validate_idem [OF v] show ?thesis by (rule keysNormalized_update)
  qed
qed

lemma attachToSession_keys:
  assumes "attachToSession username ws w = Inr w'"
  shows "sessions w' = sessions w \<or> (\<exists>n s. validateAndNormalizeUsername (JStr n) = Inr n
            \<and> map_of (sessions w) n \<noteq> None \<and> sessions w' = AList.update n s (sessions w)
            \<and> pty s = pty (the (map_of (sessions w) n)))"
proof -
  from assms obtain n where v: "validateAndNormalizeUsername (JStr username) = Inr n"
    by (auto simp: attachToSession_def split: sum.splits)
  note i = validate_idem [OF v]
  show ?thesis
  proof (cases "map_of (sessions w) n")
    case None
    with assms v show ?thesis by (simp add: attachToSession_def)
  next
    case (Some session)
    show ?thesis
    proof (cases "ws \<in> set (subscribers session)")
      case True
      with assms v Some show ?thesis by (simp add: attachToSession_def)
    next
      case False
      let ?s = "session\<lparr>subscribers := subscribers session @ [ws], lastActivity := clock w\<rparr>"
      from False assms v Some have "sessions w' = AList.update n ?s (sessions w)"
        by (auto simp: attachToSession_def)
      moreover have "pty ?s = pty (the (map_of (sessions w) n))" using Some by simp
      ultimately show ?thesis using i Some by blast
    qed
  qed
qed

lemma detachFromSession_keys:
  assumes "detachFromSession username ws w = Inr w'"
  shows "sessions w' = sessions w \<or> (\<exists>n s. validateAndNormalizeUsername (JStr n) = Inr n
            \<and> map_of (sessions w) n \<noteq> None \<and> sessions w' = AList.update n s (sessions w)
            \<and> pty s = pty (the (map_of (sessions w) n)))"
proof -
  from assms obtain n where v: "validateAndNormalizeUsername (JStr username) = Inr n"
    by (auto simp: detachFromSession_def split: sum.splits)
  note i = validate_idem [OF v]
  show ?thesis
  proof (cases "map_of (sessions w) n")
    case None
    with assms v show ?thesis by (simp add: detachFromSession_def)
  next
    case (Some session)
    show ?thesis
    proof (cases "ws \<in> set (subscribers session)")
      case False
      with assms v Some show ?thesis by (simp add: detachFromSession_def)
    next
      case True
      let ?s = "session\<lparr>subscribers := remove1 ws (subscribers session)\<rparr>"
      from True assms v Some have "sessions w' = AList.update n ?s (sessions w)"
        by (auto simp: detachFromSession_def)
      moreover have "pty ?s = pty (the (map_of (sessions w) n))" using Some by simp
      ultimately show ?thesis using i Some by blast
    qed
  qed
qed

lemma attachToSession_keysNormalized:
  assumes "attachToSession username ws w = Inr w'" and "keysNormalized w"
  shows "keysNormalized w'"
  using attachToSession_keys [OF assms(1)] assms(2)
  by (auto intro: keysNormalized_update keysNormalized_same)

lemma detachFromSession_keysNormalized:
  assumes "detachFromSession username ws w = Inr w'" and "keysNormalized w"
  shows "keysNormalized w'"
  using detachFromSession_keys [OF assms(1)] assms(2)
  by (auto intro: keysNormalized_update keysNormalized_same)

lemma perform_keysNormalized:
  assumes "perform opn w = Inr w'" and "keysNormalized w"
  shows "keysNormalized w'"
proof (cases opn)
  case (GetOrCreateSession u f)
  with assms(1) obtain s where "getOrCreateSession u f w = Inr (s, w')"
    by (cases "getOrCreateSession u f w") auto
  then show ?thesis using assms(2) by (rule getOrCreateSession_keysNormalized)
next
  case (CreateSession u)
  with assms(1) obtain s where "createSession u w = Inr (s, w')"
    by (cases "createSession u w") auto
  then show ?thesis using assms(2) by (rule createSession_keysNormalized)
next
  case (AttachToSession u v)
  with assms(1) have "attachToSession u v w = Inr w'" by simp
  then show ?thesis using assms(2) by (rule attachToSession_keysNormalized)
next
  case (DetachFromSession u v)
  with assms(1) have "detachFromSession u v w = Inr w'" by simp
  then show ?thesis using assms(2) by (rule detachFromSession_keysNormalized)
next
  case (CleanupSession u)
  with assms(1) have "cleanupSession u w = Inr w'" by simp
  then show ?thesis using assms(2) by (rule cleanupSession_keysNormalized)
next
  case (CleanupInactiveSessions t)
  with assms(1) obtain c where "cleanupInactiveSessions t w = Inr (c, w')"
    by (cases "cleanupInactiveSessions t w") auto
  then have "sweepInactive (map fst (sessions w)) (clock w) t 0 w = Inr (c, w')"
    by (simp add: cleanupInactiveSessions_def)
  with cleanupSession_keysNormalized show ?thesis using assms(2)
    by (rule sweepInactive_preserves)
next
  case ShutdownAll
  with assms(1) have "shutdownLoop (map fst (sessions w)) w = Inr w'"
    by (simp add: shutdownAll_def)
  with cleanupSession_keysNormalized show ?thesis using assms(2)
    by (rule shutdownLoop_preserves)
next
  case (OnConnection u v)
  with assms(1) obtain s w1 w2 where g: "getOrCreateSession u True w = Inr (s, w1)"
    and a: "attachToSession u v w1 = Inr w2" and e: "sessions w' = sessions w2"
    by (auto simp: onConnection_def Let_def ws_send_def split: sum.splits prod.splits)
  from getOrCreateSession_keysNormalized [OF g assms(2)] have "keysNormalized w1" .
  with a have "keysNormalized w2" by (rule attachToSession_keysNormalized)
  with e show ?thesis by (rule keysNormalized_same)
next
  case (OnClose u q v)
  let ?w0 = "w\<lparr>ptys := (ptys w)(q := (ptys w q)
            \<lparr>dataListeners := remove1 v (dataListeners (ptys w q))\<rparr>)\<rparr>"
  from OnClose assms(1) have d: "detachFromSession u v ?w0 = Inr w'" by (simp add: onClose_def)
  have "keysNormalized ?w0" using assms(2) by (simp add: keysNormalized_def)
  with d show ?thesis by (rule detachFromSession_keysNormalized)
next
  case (EmitExit q c)
  with assms(1) obtain w1 where c: "cleanupSession (exitOwner (ptys w q)) w = Inr w1"
    and e: "sessions w' = sessions w1"
    by (auto simp: emitExit_def split: sum.splits)
  from cleanupSession_keysNormalized [OF c assms(2)] have "keysNormalized w1" .
  with e show ?thesis by (rule keysNormalized_same)
qed

lemma ptysAllocated_iff:
  "ptysAllocated w \<longleftrightarrow> (\<forall>e \<in> set (sessions w). pty (snd e) < nextPty w)"
  by (simp add: ptysAllocated_def list_all_iff)

lemma ptysAllocated_step:
  assumes "ptysAllocated w" and "nextPty w \<le> nextPty w'"
    and "\<forall>e \<in> set (sessions w'). e \<in> set (sessions w) \<or> pty (snd e) < nextPty w'"
  shows "ptysAllocated w'"
  using assms by (fastforce simp: ptysAllocated_iff)

lemma ptysAllocated_update:
  assumes "ptysAllocated w" and "nextPty w \<le> nextPty w'"
    and "sessions w' = AList.update k s (sessions w)" and "pty s < nextPty w'"
  shows "ptysAllocated w'"
proof -
  have "set (sessions w') \<subseteq> insert (k, s) (set (sessions w))"
    using assms(3) set_update_subset by metis
  with assms(4) have "\<forall>e \<in> set (sessions w'). e \<in> set (sessions w) \<or> pty (snd e) < nextPty w'"
    by auto
  with assms(1,2) show ?thesis by (rule ptysAllocated_step)
qed

lemma cleanupSession_nextPty:
  assumes "cleanupSession username w = Inr w'"
  shows "nextPty w' = nextPty w"
proof -
  from assms obtain n where v: "validateAndNormalizeUsername (JStr username) = Inr n"
    by (auto simp: cleanupSession_def split: sum.splits)
  show ?thesis
  proof (cases "map_of (sessions w) n")
    case None
    from cleanupSession_absent [OF v None] assms show ?thesis by simp
  next
    case (Some session)
    from cleanupSession_present [OF v Some] assms show ?thesis by auto
  qed
qed

lemma cleanupSession_ptysAllocated:
  assumes "cleanupSession username w = Inr w'" and "ptysAllocated w"
  shows "ptysAllocated w'"
proof -
  from cleanupSession_sessions [OF assms(1)] have "set (sessions w') \<subseteq> set (sessions w)"
    using set_delete_subset by fastforce
  then have "\<forall>e \<in> set (sessions w'). e \<in> set (sessions w) \<or> pty (snd e) < nextPty w'"
    by auto
  with assms(2) show ?thesis using cleanupSession_nextPty [OF assms(1)]
    by (intro ptysAllocated_step [of w w']) simp_all
qed

lemma createSession_ptysAllocated:
  assumes "createSession username w = Inr (s, w')" and "ptysAllocated w"
  shows "ptysAllocated w'"
proof -
  from assms(1) obtain n where v: "validateAndNormalizeUsername (JStr username) = Inr n"
    by (auto simp: createSession_def split: sum.splits)
  from assms(1) v have ns: "\<not> spawnFails w"
    by (auto simp: createSession_def split: sum.splits if_splits)
  from createSession_ok [OF v ns] assms(1)
  have "sessions w' = AList.update n s (sessions w)" "nextPty w' = nextPty w + 1"
    "pty s = nextPty w"
    by auto
  with assms(2) show ?thesis by (intro ptysAllocated_update [of w w' n s]) simp_all
qed

lemma ptysAllocated_lookup:
  assumes "ptysAllocated w" and "map_of (sessions w) k = Some s"
  shows "pty s < nextPty w"
  using assms(1) map_of_SomeD [OF assms(2)] by (auto simp: ptysAllocated_iff)

lemma getOrCreateSession_ptysAllocated:
  assumes "getOrCreateSession username forceNew w = Inr (s, w')" and "ptysAllocated w"
  shows "ptysAllocated w'"
proof -
  from assms(1) obtain n where v: "validateAndNormalizeUsername (JStr username) = Inr n"
    by (auto simp: getOrCreateSession_def split: sum.splits)
  from assms(1) v obtain w1 where
    c: "(if forceNew \<and> map_of (sessions w) n \<noteq> None then cleanupSession n w else Inr w) = Inr w1"
    by (auto simp: getOrCreateSession_def split: sum.splits)
  have i1: "ptysAllocated w1"
  proof (cases "forceNew \<and> map_of (sessions w) n \<noteq> None")
    case True
    with c have "cleanupSession n w = Inr w1" by simp
    then show ?thesis using assms(2) by (rule cleanupSession_ptysAllocated)
  next
    case False
    with c assms(2) show ?thesis by auto
  qed
  show ?thesis
  proof (cases "map_of (sessions w1) n")
    case None
    with assms(1) v c have "createSession n w1 = Inr (s, w')"
      by (simp add: getOrCreateSession_def)
    then show ?thesis using i1 by (rule createSession_ptysAllocated)
  next
    case (Some session)
    with assms(1) v c have e: "sessions w' =
        AList.update n (session\<lparr>lastActivity := clock w1\<rparr>) (sessions w1)"
      and x: "nextPty w' = nextPty w1"
      by (auto simp: getOrCreateSession_def Let_def)
    from ptysAllocated_lookup [OF i1 Some] x
    have "pty (session\<lparr>lastActivity := clock w1\<rparr>) < nextPty w'" by simp
    with i1 x e show ?thesis
      by (intro ptysAllocated_update [of w1 w' n "session\<lparr>lastActivity := clock w1\<rparr>"]) simp_all
  qed
qed

lemma attachToSession_nextPty:
  "attachToSession username ws w = Inr w' \<Longrightarrow> nextPty w' = nextPty w"
  by (auto simp: attachToSession_def split: sum.splits option.splits if_splits)

lemma detachFromSession_nextPty:
  "detachFromSession username ws w = Inr w' \<Longrightarrow> nextPty w' = nextPty w"
  by (auto simp: detachFromSession_def split: sum.splits option.splits if_splits)

lemma ptysAllocated_keys_step:
  assumes "ptysAllocated w" and "nextPty w' = nextPty w"
    and "sessions w' = sessions w \<or> (\<exists>n s. validateAndNormalizeUsername (JStr n) = Inr n
            \<and> map_of (sessions w) n \<noteq> None \<and> sessions w' = AList.update n s (sessions w)
            \<and> pty s = pty (the (map_of (sessions w) n)))"
  shows "ptysAllocated w'"
proof -
  from assms(3) show ?thesis
  proof
    assume "sessions w' = sessions w"
    with assms(1,2) show ?thesis by (simp add: ptysAllocated_def)
  next
    assume "\<exists>n s. validateAndNormalizeUsername (JStr n) = Inr n
            \<and> map_of (sessions w) n \<noteq> None \<and> sessions w' = AList.update n s (sessions w)
            \<and> pty s = pty (the (map_of (sessions w) n))"
    then obtain n s old where m: "map_of (sessions w) n = Some old"
      and e: "sessions w' = AList.update n s (sessions w)" and p: "pty s = pty old"
      by auto
    from ptysAllocated_lookup [OF assms(1) m] p assms(2) have "pty s < nextPty w'" by simp
    with assms(1,2) e show ?thesis
      by (intro ptysAllocated_update [of w w' n s]) simp_all
  qed
qed

lemma attachToSession_ptysAllocated:
  assumes "attachToSession username ws w = Inr w'" and "ptysAllocated w"
  shows "ptysAllocated w'"
  using assms(2) attachToSession_nextPty [OF assms(1)] attachToSession_keys [OF assms(1)]
  by (rule ptysAllocated_keys_step)

lemma detachFromSession_ptysAllocated:
  assumes "detachFromSession username ws w = Inr w'" and "ptysAllocated w"
  shows "ptysAllocated w'"
  using assms(2) detachFromSession_nextPty [OF assms(1)] detachFromSession_keys [OF assms(1)]
  by (rule ptysAllocated_keys_step)

lemma ptysAllocated_same:
  "sessions w' = sessions w \<Longrightarrow> nextPty w' = nextPty w \<Longrightarrow> ptysAllocated w \<Longrightarrow> ptysAllocated w'"
  by (simp add: ptysAllocated_def)

lemma perform_ptysAllocated:
  assumes "perform opn w = Inr w'" and "ptysAllocated w"
  shows "ptysAllocated w'"
proof (cases opn)
  case (GetOrCreateSession u f)
  with assms(1) obtain s where "getOrCreateSession u f w = Inr (s, w')"
    by (cases "getOrCreateSession u f w") auto
  then show ?thesis using assms(2) by (rule getOrCreateSession_ptysAllocated)
next
  case (CreateSession u)
  with assms(1) obtain s where "createSession u w = Inr (s, w')"
    by (cases "createSession u w") auto
  then show ?thesis using assms(2) by (rule createSession_ptysAllocated)
next
  case (AttachToSession u v)
  with assms(1) have "attachToSession u v w = Inr w'" by simp
  then show ?thesis using assms(2) by (rule attachToSession_ptysAllocated)
next
  case (DetachFromSession u v)
  with assms(1) have "detachFromSession u v w = Inr w'" by simp
  then show ?thesis using assms(2) by (rule detachFromSession_ptysAllocated)
next
  case (CleanupSession u)
  with assms(1) have "cleanupSession u w = Inr w'" by simp
  then show ?thesis using assms(2) by (rule cleanupSession_ptysAllocated)
next
  case (CleanupInactiveSessions t)
  with assms(1) obtain c where "cleanupInactiveSessions t w = Inr (c, w')"
    by (cases "cleanupInactiveSessions t w") auto
  then have "sweepInactive (map fst (sessions w)) (clock w) t 0 w = Inr (c, w')"
    by (simp add: cleanupInactiveSessions_def)
  with cleanupSession_ptysAllocated show ?thesis using assms(2)
    by (rule sweepInactive_preserves)
next
  case ShutdownAll
  with assms(1) have "shutdownLoop (map fst (sessions w)) w = Inr w'"
    by (simp add: shutdownAll_def)
  with cleanupSession_ptysAllocated show ?thesis using assms(2)
    by (rule shutdownLoop_preserves)
next
  case (OnConnection u v)
  with assms(1) obtain s w1 w2 where g: "getOrCreateSession u True w = Inr (s, w1)"
    and a: "attachToSession u v w1 = Inr w2" and e: "sessions w' = sessions w2"
    and x: "nextPty w' = nextPty w2"
    by (auto simp: onConnection_def Let_def ws_send_def split: sum.splits prod.splits)
  from getOrCreateSession_ptysAllocated [OF g assms(2)] have "ptysAllocated w1" .
  with a have "ptysAllocated w2" by (rule attachToSession_ptysAllocated)
  with e x show ?thesis by (rule ptysAllocated_same)
next
  case (OnClose u q v)
  let ?w0 = "w\<lparr>ptys := (ptys w)(q := (ptys w q)
            \<lparr>dataListeners := remove1 v (dataListeners (ptys w q))\<rparr>)\<rparr>"
  from OnClose assms(1) have d: "detachFromSession u v ?w0 = Inr w'" by (simp add: onClose_def)
  have "ptysAllocated ?w0" using assms(2) by (simp add: ptysAllocated_def)
  with d show ?thesis by (rule detachFromSession_ptysAllocated)
next
  case (EmitExit q c)
  with assms(1) obtain w1 where c: "cleanupSession (exitOwner (ptys w q)) w = Inr w1"
    and e: "sessions w' = sessions w1" and x: "nextPty w' = nextPty w1"
    by (auto simp: emitExit_def split: sum.splits)
  from cleanupSession_ptysAllocated [OF c assms(2)] have "ptysAllocated w1" .
  with e x show ?thesis by (rule ptysAllocated_same)
qed

lemma newManager_invariants:
  "keysNormalized (newManager w) \<and> ptysAllocated (newManager w)"
  by (simp add: keysNormalized_def ptysAllocated_def newManager_def)

section \<open>The exit of a replaced process\<close>

text \<open>
  C1. After \<open>getOrCreateSession\<close> with \<open>forceNew\<close> for an identity that has a session,
  exactly one live session should exist for the identity. It does when the call returns,
  and not afterwards. In \<open>connectedWorld\<close> (socket 0 connected for \<^verbatim>\<open>alice\<close>, process 0) the
  call kills process 0 and registers a new session on process 1. Process 0 then reports
  its exit, as a killed process does; its \<^verbatim>\<open>exit\<close> listener calls \<open>cleanupSession\<close> with
  the user name, finds the new session under that name and tears it down: process 1 is
  killed and the registry has no session for \<^verbatim>\<open>alice\<close>. The same happens to a second
  connection, which replaces the session in this way: its socket 1 receives the exit frame
  and is left without a session.
\<close>

theorem forced_replacement_destroyed_by_old_exit:
  "map_of (sessions connectedWorld) ''alice''
     = Some \<lparr>pty = 0, created = 1000, lastActivity = 1000, subscribers = [0]\<rparr>
   \<and> isl (getOrCreateSession ''alice'' True connectedWorld) = False
   \<and> fst (projr (getOrCreateSession ''alice'' True connectedWorld))
       = \<lparr>pty = 1, created = 1000, lastActivity = 1000, subscribers = []\<rparr>
   \<and> sessions (snd (projr (getOrCreateSession ''alice'' True connectedWorld)))
       = [(''alice'', \<lparr>pty = 1, created = 1000, lastActivity = 1000, subscribers = []\<rparr>)]
   \<and> killed (ptys (snd (projr (getOrCreateSession ''alice'' True connectedWorld))) 0)
   \<and> killed (ptys (snd (projr (getOrCreateSession ''alice'' True connectedWorld))) 1) = False
   \<and> isl (emitExit 0 0 (snd (projr (getOrCreateSession ''alice'' True connectedWorld)))) = False
   \<and> sessions (projr (emitExit 0 0
        (snd (projr (getOrCreateSession ''alice'' True connectedWorld))))) = []
   \<and> killed (ptys (projr (emitExit 0 0
        (snd (projr (getOrCreateSession ''alice'' True connectedWorld))))) 1)
   \<and> isl (onConnection ''alice'' 1 connectedWorld) = False
   \<and> sessions (projr (onConnection ''alice'' 1 connectedWorld))
       = [(''alice'', \<lparr>pty = 1, created = 1000, lastActivity = 1000, subscribers = [1]\<rparr>)]
   \<and> sessions (projr (emitExit 0 0 (projr (onConnection ''alice'' 1 connectedWorld)))) = []
   \<and> sent (sockets (projr (emitExit 0 0 (projr (onConnection ''alice'' 1 connectedWorld)))) 1)
       = [ConnectedFrame, ExitFrame 0]"
  by (simp add: onConnection_def attachToSession_def getOrCreateSession_def cleanupSession_def
      createSession_def emitExit_def validate_alice path_alice connectedWorld_def
      freshSocket_def notifySubscriber_def exitHandler_def ws_send_def ws_close_def
      pty_kill_def Let_def)

section \<open>Two calls with no destroy between them\<close>

text \<open>
  An operation keeps the session of \<open>n\<close> when the session registered for \<open>n\<close> before it
  is still registered after it, with the same process and the same creation time.
\<close>

lemma keeps_same_lookup:
  assumes "map_of (sessions w') n = map_of (sessions w) n"
    and "map_of (sessions w) n = Some s"
  shows "\<exists>s'. map_of (sessions w') n = Some s' \<and> pty s' = pty s \<and> created s' = created s"
  using assms by simp

lemma cleanupSession_other:
  assumes "cleanupSession username w = Inr w'"
    and "validateAndNormalizeUsername (JStr username) \<noteq> Inr n"
  shows "map_of (sessions w') n = map_of (sessions w) n"
proof -
  from cleanupSession_sessions [OF assms(1)] show ?thesis
  proof
    assume "sessions w' = sessions w"
    then show ?thesis by simp
  next
    assume "\<exists>m. validateAndNormalizeUsername (JStr username) = Inr m
            \<and> sessions w' = AList.delete m (sessions w)"
    then obtain m where v: "validateAndNormalizeUsername (JStr username) = Inr m"
      and d: "sessions w' = AList.delete m (sessions w)" by blast
    from v assms(2) have "n \<noteq> m" by auto
    with d show ?thesis by simp
  qed
qed

lemma createSession_other:
  assumes "createSession username w = Inr (s, w')"
    and "validateAndNormalizeUsername (JStr username) \<noteq> Inr n"
  shows "map_of (sessions w') n = map_of (sessions w) n"
proof -
  from assms(1) obtain m where v: "validateAndNormalizeUsername (JStr username) = Inr m"
    by (auto simp: createSession_def split: sum.splits)
  from assms(1) v have ns: "\<not> spawnFails w"
    by (auto simp: createSession_def split: sum.splits if_splits)
  from v assms(2) have "n \<noteq> m" by auto
  with createSession_ok [OF v ns] assms(1) show ?thesis by (auto simp: update_conv')
qed

lemma getOrCreateSession_other:
  assumes "getOrCreateSession username forceNew w = Inr (s, w')"
    and "validateAndNormalizeUsername (JStr username) \<noteq> Inr n"
  shows "map_of (sessions w') n = map_of (sessions w) n"
proof -
  from assms(1) obtain m where v: "validateAndNormalizeUsername (JStr username) = Inr m"
    by (auto simp: getOrCreateSession_def split: sum.splits)
  from v assms(2) have ne: "n \<noteq> m" by auto
  note i = validate_idem [OF v]
  from i ne have vm: "validateAndNormalizeUsername (JStr m) \<noteq> Inr n" by auto
  from assms(1) v obtain w1 where
    c: "(if forceNew \<and> map_of (sessions w) m \<noteq> None then cleanupSession m w else Inr w) = Inr w1"
    by (auto simp: getOrCreateSession_def split: sum.splits)
  have l1: "map_of (sessions w1) n = map_of (sessions w) n"
  proof (cases "forceNew \<and> map_of (sessions w) m \<noteq> None")
    case True
    with c have "cleanupSession m w = Inr w1" by simp
    then show ?thesis using vm by (rule cleanupSession_other)
  next
    case False
    with c show ?thesis by auto
  qed
  show ?thesis
  proof (cases "map_of (sessions w1) m")
    case None
    with assms(1) v c have "createSession m w1 = Inr (s, w')"
      by (simp add: getOrCreateSession_def)
    from createSession_other [OF this vm] l1 show ?thesis by simp
  next
    case (Some session)
    with assms(1) v c have "sessions w' =
        AList.update m (session\<lparr>lastActivity := clock w1\<rparr>) (sessions w1)"
      by (auto simp: getOrCreateSession_def Let_def)
    with ne l1 show ?thesis by (simp add: update_conv')
  qed
qed

lemma attachToSession_keeps:
  assumes "attachToSession username ws w = Inr w'" and "map_of (sessions w) n = Some s"
  shows "\<exists>s'. map_of (sessions w') n = Some s' \<and> pty s' = pty s \<and> created s' = created s"
proof -
  from assms(1) obtain m where v: "validateAndNormalizeUsername (JStr username) = Inr m"
    by (auto simp: attachToSession_def split: sum.splits)
  show ?thesis
  proof (cases "map_of (sessions w) m")
    case None
    with assms v show ?thesis by (simp add: attachToSession_def)
  next
    case (Some session)
    show ?thesis
    proof (cases "ws \<in> set (subscribers session)")
      case True
      with assms v Some show ?thesis by (simp add: attachToSession_def)
    next
      case False
      let ?s = "session\<lparr>subscribers := subscribers session @ [ws], lastActivity := clock w\<rparr>"
      from False assms(1) v Some have e: "sessions w' = AList.update m ?s (sessions w)"
        by (auto simp: attachToSession_def)
      show ?thesis
      proof (cases "n = m")
        case True
        with Some assms(2) have "session = s" by simp
        with e True show ?thesis by (simp add: update_conv')
      next
        case False
        with e assms(2) show ?thesis by (simp add: update_conv')
      qed
    qed
  qed
qed

lemma detachFromSession_keeps:
  assumes "detachFromSession username ws w = Inr w'" and "map_of (sessions w) n = Some s"
  shows "\<exists>s'. map_of (sessions w') n = Some s' \<and> pty s' = pty s \<and> created s' = created s"
proof -
  from assms(1) obtain m where v: "validateAndNormalizeUsername (JStr username) = Inr m"
    by (auto simp: detachFromSession_def split: sum.splits)
  show ?thesis
  proof (cases "map_of (sessions w) m")
    case None
    with assms v show ?thesis by (simp add: detachFromSession_def)
  next
    case (Some session)
    show ?thesis
    proof (cases "ws \<in> set (subscribers session)")
      case False
      with assms v Some show ?thesis by (simp add: detachFromSession_def)
    next
      case True
      let ?s = "session\<lparr>subscribers := remove1 ws (subscribers session)\<rparr>"
      from True assms(1) v Some have e: "sessions w' = AList.update m ?s (sessions w)"
        by (auto simp: detachFromSession_def)
      show ?thesis
      proof (cases "n = m")
        case True
        with Some assms(2) have "session = s" by simp
        with e True show ?thesis by (simp add: update_conv')
      next
        case False
        with e assms(2) show ?thesis by (simp add: update_conv')
      qed
    qed
  qed
qed

lemma map_of_filter_keep:
  "\<forall>e \<in> set al. fst e = n \<longrightarrow> P e \<Longrightarrow> map_of (filter P al) n = map_of al n"
  by (induction al) auto

lemma cleanupInactiveSessions_other:
  assumes "keysNormalized w" and "\<not> inactiveKey (clock w) timeoutMs w n"
    and "cleanupInactiveSessions timeoutMs w = Inr (c, w')"
  shows "map_of (sessions w') n = map_of (sessions w) n"
proof -
  let ?ks = "map fst (sessions w)"
  from assms(1) have d: "distinct ?ks"
    and v: "\<forall>k \<in> set ?ks. validateAndNormalizeUsername (JStr k) = Inr k"
    by (simp_all add: keysNormalized_def list_all_iff)
  from sweepInactive_result [OF d v, of "clock w" timeoutMs 0 w] obtain w'' where
    r: "sweepInactive ?ks (clock w) timeoutMs 0 w =
          Inr (0 + length (filter (inactiveKey (clock w) timeoutMs w) ?ks), w'')"
    and s: "sessions w'' =
          filter (\<lambda>e. \<not> (fst e \<in> set ?ks \<and> inactiveKey (clock w) timeoutMs w (fst e))) (sessions w)"
    by blast
  from r assms(3) have "w'' = w'" by (simp add: cleanupInactiveSessions_def)
  with s assms(2) show ?thesis by (simp add: map_of_filter_keep)
qed

lemma perform_keeps_session:
  assumes "keysNormalized w" and "map_of (sessions w) n = Some s"
    and "\<not> destroys n w opn" and "perform opn w = Inr w'"
  shows "\<exists>s'. map_of (sessions w') n = Some s' \<and> pty s' = pty s \<and> created s' = created s"
proof (cases opn)
  case (GetOrCreateSession u f)
  with assms(4) obtain r where g: "getOrCreateSession u f w = Inr (r, w')"
    by (cases "getOrCreateSession u f w") auto
  show ?thesis
  proof (cases "validateAndNormalizeUsername (JStr u) = Inr n")
    case False
    from getOrCreateSession_other [OF g False] assms(2) show ?thesis by simp
  next
    case True
    with GetOrCreateSession assms(3) have "\<not> f" by simp
    with g have "getOrCreateSession u False w = Inr (r, w')" by simp
    with getOrCreateSession_existing [OF True assms(2)] show ?thesis
      by (auto simp: update_conv')
  qed
next
  case (CreateSession u)
  with assms(4) obtain r where g: "createSession u w = Inr (r, w')"
    by (cases "createSession u w") auto
  from CreateSession assms(3) have "validateAndNormalizeUsername (JStr u) \<noteq> Inr n" by simp
  from createSession_other [OF g this] assms(2) show ?thesis by simp
next
  case (AttachToSession u v)
  with assms(4) have "attachToSession u v w = Inr w'" by simp
  then show ?thesis using assms(2) by (rule attachToSession_keeps)
next
  case (DetachFromSession u v)
  with assms(4) have "detachFromSession u v w = Inr w'" by simp
  then show ?thesis using assms(2) by (rule detachFromSession_keeps)
next
  case (CleanupSession u)
  with assms(4) have g: "cleanupSession u w = Inr w'" by simp
  from CleanupSession assms(3) have "validateAndNormalizeUsername (JStr u) \<noteq> Inr n" by simp
  from cleanupSession_other [OF g this] assms(2) show ?thesis by simp
next
  case (CleanupInactiveSessions t)
  with assms(4) obtain c where g: "cleanupInactiveSessions t w = Inr (c, w')"
    by (cases "cleanupInactiveSessions t w") auto
  from CleanupInactiveSessions assms(3) have "\<not> inactiveKey (clock w) t w n" by simp
  from cleanupInactiveSessions_other [OF assms(1) this g] assms(2) show ?thesis by simp
next
  case ShutdownAll
  with assms(3) show ?thesis by simp
next
  case (OnConnection u v)
  with assms(4) obtain r w1 w2 where g: "getOrCreateSession u True w = Inr (r, w1)"
    and a: "attachToSession u v w1 = Inr w2" and e: "sessions w' = sessions w2"
    by (auto simp: onConnection_def Let_def ws_send_def split: sum.splits prod.splits)
  from OnConnection assms(3) have "validateAndNormalizeUsername (JStr u) \<noteq> Inr n" by simp
  from getOrCreateSession_other [OF g this] assms(2) have "map_of (sessions w1) n = Some s"
    by simp
  from attachToSession_keeps [OF a this] e show ?thesis by simp
next
  case (OnClose u q v)
  let ?w0 = "w\<lparr>ptys := (ptys w)(q := (ptys w q)
            \<lparr>dataListeners := remove1 v (dataListeners (ptys w q))\<rparr>)\<rparr>"
  from OnClose assms(4) have d: "detachFromSession u v ?w0 = Inr w'" by (simp add: onClose_def)
  from assms(2) have "map_of (sessions ?w0) n = Some s" by simp
  with d show ?thesis by (rule detachFromSession_keeps)
next
  case (EmitExit q c)
  with assms(4) obtain w1 where g: "cleanupSession (exitOwner (ptys w q)) w = Inr w1"
    and e: "sessions w' = sessions w1"
    by (auto simp: emitExit_def split: sum.splits)
  from EmitExit assms(3)
  have "validateAndNormalizeUsername (JStr (exitOwner (ptys w q))) \<noteq> Inr n" by simp
  from cleanupSession_other [OF g this] assms(2) e show ?thesis by simp
qed

lemma runWithoutDestroy_keeps_session:
  assumes "runWithoutDestroy n steps w = Some wm"
    and "keysNormalized w" and "map_of (sessions w) n = Some s"
  shows "\<exists>sm. map_of (sessions wm) n = Some sm \<and> pty sm = pty s \<and> created sm = created s"
  using assms
proof (induction steps arbitrary: w s)
  case Nil
  then show ?case by simp
next
  case (Cons step rest)
  let ?w0 = "w\<lparr>clock := fst step\<rparr>"
  from Cons.prems(1) have nd: "\<not> destroys n ?w0 (snd step)"
    by (auto simp: Let_def split: if_splits)
  with Cons.prems(1) obtain w' where p: "perform (snd step) ?w0 = Inr w'"
    and r: "runWithoutDestroy n rest w' = Some wm"
    by (auto simp: Let_def split: sum.splits)
  from Cons.prems(2) have k0: "keysNormalized ?w0" by (simp add: keysNormalized_def)
  from Cons.prems(3) have m0: "map_of (sessions ?w0) n = Some s" by simp
  from perform_keeps_session [OF k0 m0 nd p] obtain s' where
    m': "map_of (sessions w') n = Some s'" and e: "pty s' = pty s" "created s' = created s"
    by blast
  from perform_keysNormalized [OF p k0] have k': "keysNormalized w'" .
  from Cons.IH [OF r k' m'] e show ?case by auto
qed


lemma path_bob: "validatePathComponent ''bob'' = Inr ()"
  by code_simp

text \<open>
  C2. For a valid identity, in a registry whose keys are normalized, a call of
  \<open>getOrCreateSession\<close> without \<open>forceNew\<close> returns a session and registers it (a session
  is already there, or the spawn succeeds). After any run of operations that does not
  destroy that session, at whatever times they come, the session registered for the
  identity still has the process and creation time of the one the first call returned,
  and a second call returns that registered session with its last activity set to the
  time of the call. The second call changes nothing but that entry of the registry: no
  process is spawned, the processes and the next free process reference are untouched.
  More generally, whenever a session is registered for the identity, the call returns it,
  refreshed, and changes only its entry.
\<close>

theorem getOrCreateSession_twice_same_session:
  assumes "validateAndNormalizeUsername (JStr username) = Inr n"
    and "keysNormalized w"
    and "map_of (sessions w) n \<noteq> None \<or> \<not> spawnFails w"
  shows "\<exists>s1 w1. getOrCreateSession username False w = Inr (s1, w1)
           \<and> map_of (sessions w1) n = Some s1
           \<and> (\<forall>steps wm. runWithoutDestroy n steps w1 = Some wm \<longrightarrow>
                (\<exists>sm s2 w2. map_of (sessions wm) n = Some sm
                   \<and> getOrCreateSession username False wm = Inr (s2, w2)
                   \<and> s2 = sm\<lparr>lastActivity := clock wm\<rparr>
                   \<and> pty s2 = pty s1 \<and> created s2 = created s1
                   \<and> w2 = wm\<lparr>sessions := AList.update n s2 (sessions wm)\<rparr>
                   \<and> map_of (sessions w2) n = Some s2
                   \<and> map fst (sessions w2) = map fst (sessions wm)
                   \<and> ptys w2 = ptys wm \<and> nextPty w2 = nextPty wm \<and> sockets w2 = sockets wm))
           \<and> (\<forall>wm sm. map_of (sessions wm) n = Some sm \<longrightarrow>
                getOrCreateSession username False wm =
                  Inr (sm\<lparr>lastActivity := clock wm\<rparr>,
                       wm\<lparr>sessions := AList.update n (sm\<lparr>lastActivity := clock wm\<rparr>)
                                        (sessions wm)\<rparr>))"
proof -
  note idem = validate_idem [OF assms(1)]
  have general: "getOrCreateSession username False wm =
                  Inr (sm\<lparr>lastActivity := clock wm\<rparr>,
                       wm\<lparr>sessions := AList.update n (sm\<lparr>lastActivity := clock wm\<rparr>)
                                        (sessions wm)\<rparr>)"
    if "map_of (sessions wm) n = Some sm" for wm sm
    using assms(1) that by (rule getOrCreateSession_existing)
  have first: "\<exists>s1 w1. getOrCreateSession username False w = Inr (s1, w1)"
  proof (cases "map_of (sessions w) n")
    case None
    with assms(3) have ns: "\<not> spawnFails w" by simp
    from None assms(1) have "getOrCreateSession username False w = createSession n w"
      by (simp add: getOrCreateSession_def)
    with createSession_ok [OF idem ns] show ?thesis by simp
  next
    case (Some session)
    from general [OF Some] show ?thesis by blast
  qed
  then obtain s1 w1 where g: "getOrCreateSession username False w = Inr (s1, w1)" by blast
  from getOrCreateSession_registers [OF g] assms(1)
  have m1: "map_of (sessions w1) n = Some s1" by auto
  from getOrCreateSession_keysNormalized [OF g assms(2)] have k1: "keysNormalized w1" .
  have second: "\<exists>sm s2 w2. map_of (sessions wm) n = Some sm
                   \<and> getOrCreateSession username False wm = Inr (s2, w2)
                   \<and> s2 = sm\<lparr>lastActivity := clock wm\<rparr>
                   \<and> pty s2 = pty s1 \<and> created s2 = created s1
                   \<and> w2 = wm\<lparr>sessions := AList.update n s2 (sessions wm)\<rparr>
                   \<and> map_of (sessions w2) n = Some s2
                   \<and> map fst (sessions w2) = map fst (sessions wm)
                   \<and> ptys w2 = ptys wm \<and> nextPty w2 = nextPty wm \<and> sockets w2 = sockets wm"
    if run: "runWithoutDestroy n steps w1 = Some wm" for steps wm
  proof -
    from runWithoutDestroy_keeps_session [OF run k1 m1] obtain sm where
      mm: "map_of (sessions wm) n = Some sm" and e: "pty sm = pty s1" "created sm = created s1"
      by blast
    have k: "n \<in> fst ` set (sessions wm)" using mm by (metis domI dom_map_of_conv_image_fst)
    from general [OF mm] mm e k show ?thesis by (simp add: update_conv' update_keys)
  qed
  from g m1 second general show ?thesis by blast
qed

theorem getOrCreateSession_twice_same_session_witness:
  "keysNormalized emptyWorld \<and> \<not> spawnFails emptyWorld
   \<and> fst (projr (getOrCreateSession ''alice'' False emptyWorld))
       = \<lparr>pty = 0, created = 1000, lastActivity = 1000, subscribers = []\<rparr>
   \<and> runWithoutDestroy ''alice''
        [(2000, AttachToSession ''alice'' 7), (3000, GetOrCreateSession ''bob'' True)]
        (snd (projr (getOrCreateSession ''alice'' False emptyWorld))) \<noteq> None
   \<and> fst (projr (getOrCreateSession ''alice'' False
        (the (runWithoutDestroy ''alice''
           [(2000, AttachToSession ''alice'' 7), (3000, GetOrCreateSession ''bob'' True)]
           (snd (projr (getOrCreateSession ''alice'' False emptyWorld)))))))
       = \<lparr>pty = 0, created = 1000, lastActivity = 3000, subscribers = [7]\<rparr>
   \<and> nextPty (snd (projr (getOrCreateSession ''alice'' False
        (the (runWithoutDestroy ''alice''
           [(2000, AttachToSession ''alice'' 7), (3000, GetOrCreateSession ''bob'' True)]
           (snd (projr (getOrCreateSession ''alice'' False emptyWorld)))))))) = 2"
proof -
  let ?steps = "[(2000, AttachToSession ''alice'' 7), (3000, GetOrCreateSession ''bob'' True)]"
  have k: "keysNormalized emptyWorld" by (simp add: keysNormalized_def emptyWorld_def)
  have f: "\<not> spawnFails emptyWorld" by (simp add: emptyWorld_def)
  then have h: "map_of (sessions emptyWorld) ''alice'' \<noteq> None \<or> \<not> spawnFails emptyWorld" by simp
  have ne: "validateAndNormalizeUsername (JStr ''bob'') \<noteq> Inr ''alice''"
    by (simp add: validate_bob)
  from getOrCreateSession_twice_same_session [OF validate_alice k h] obtain s1 w1 where
    g: "getOrCreateSession ''alice'' False emptyWorld = Inr (s1, w1)"
    and t: "\<forall>steps wm. runWithoutDestroy ''alice'' steps w1 = Some wm \<longrightarrow>
                (\<exists>sm s2 w2. map_of (sessions wm) ''alice'' = Some sm
                   \<and> getOrCreateSession ''alice'' False wm = Inr (s2, w2)
                   \<and> s2 = sm\<lparr>lastActivity := clock wm\<rparr>
                   \<and> pty s2 = pty s1 \<and> created s2 = created s1
                   \<and> w2 = wm\<lparr>sessions := AList.update ''alice'' s2 (sessions wm)\<rparr>
                   \<and> map_of (sessions w2) ''alice'' = Some s2
                   \<and> map fst (sessions w2) = map fst (sessions wm)
                   \<and> ptys w2 = ptys wm \<and> nextPty w2 = nextPty wm \<and> sockets w2 = sockets wm)"
    by blast
  from g have s1: "s1 = \<lparr>pty = 0, created = 1000, lastActivity = 1000, subscribers = []\<rparr>"
    and w1: "sessions w1 = [(''alice'', s1)]" "nextPty w1 = 1" "spawnFails w1 = False"
    by (auto simp: getOrCreateSession_def createSession_def validate_alice path_alice
        emptyWorld_def Let_def)
  have "\<exists>wm. runWithoutDestroy ''alice'' ?steps w1 = Some wm
          \<and> subscribers (the (map_of (sessions wm) ''alice'')) = [7]
          \<and> clock wm = 3000 \<and> nextPty wm = 2"
    using s1 w1 ne
    by (simp add: Let_def attachToSession_def getOrCreateSession_def createSession_def
        validate_alice validate_bob path_bob)
  then obtain wm where r: "runWithoutDestroy ''alice'' ?steps w1 = Some wm"
    and o: "subscribers (the (map_of (sessions wm) ''alice'')) = [7]"
      "clock wm = 3000" "nextPty wm = 2"
    by blast
  from t r obtain sm s2 w2 where
    a: "map_of (sessions wm) ''alice'' = Some sm"
      "getOrCreateSession ''alice'' False wm = Inr (s2, w2)"
      "s2 = sm\<lparr>lastActivity := clock wm\<rparr>" "pty s2 = pty s1" "created s2 = created s1"
      "nextPty w2 = nextPty wm"
    by blast
  from a o s1 have "s2 = \<lparr>pty = 0, created = 1000, lastActivity = 3000, subscribers = [7]\<rparr>"
    by (cases s2) auto
  with k f g s1 r a o show ?thesis by simp
qed

end
